theory Spec2Isabelle
  imports Main "HOL-Library.Word"
begin

section \<open>The in-memory object store of bmd\<close>

text \<open>
  The repository holds two versions of the memory-only engine \<^verbatim>\<open>MemDb\<close>:
  \<^item> the engine with per-type \<^verbatim>\<open>counter\<close> buckets, a tag index and the expiration
    sweep (the \<^verbatim>\<open>package memdb\<close> text that follows \<^verbatim>\<open>rpcmethods.go\<close>); its
    definitions keep the names of the source;
  \<^item> the earlier engine of \<^verbatim>\<open>database/memdb/memdb.go\<close>, whose write operations are
    still stubs; its definitions carry the suffix \<open>_legacy\<close>.

  Every Go method mutates the receiver in place, so every operation that can write
  returns the store next to its result, also when the result is an error.
  A Go map is a partial function; where the source ranges over a map, the order of the
  visit is not fixed by the language, and the model takes that order as an argument.
\<close>

subsection \<open>Basic types\<close>

type_synonym bytes = "8 word list"

text \<open>\<^verbatim>\<open>wire.ShaHash\<close> is a 32-byte array, compared by content.\<close>
type_synonym ShaHash = "8 word list"

text \<open>\<^verbatim>\<open>wire.ObjectType\<close> is a \<^verbatim>\<open>uint32\<close>; counters are \<^verbatim>\<open>uint64\<close>.\<close>
type_synonym ObjectType = "32 word"
type_synonym uint64 = "64 word"

text \<open>A \<^verbatim>\<open>time.Time\<close>, as nanoseconds since the epoch.\<close>
type_synonym Time = int

definition Hour :: int where
  "Hour = 3600000000000"

text \<open>
  The object types of the Bitmessage protocol; the tests of the store rely on these
  values (\<^verbatim>\<open>testObj\<close> is indexed by object type).
\<close>
definition ObjectTypeGetPubKey :: ObjectType where "ObjectTypeGetPubKey = 0"
definition ObjectTypePubKey :: ObjectType where "ObjectTypePubKey = 1"
definition ObjectTypeMsg :: ObjectType where "ObjectTypeMsg = 2"
definition ObjectTypeBroadcast :: ObjectType where "ObjectTypeBroadcast = 3"

definition SimplePubKeyVersion :: uint64 where "SimplePubKeyVersion = 2"
definition ExtendedPubKeyVersion :: uint64 where "ExtendedPubKeyVersion = 3"
definition EncryptedPubKeyVersion :: uint64 where "EncryptedPubKeyVersion = 4"

text \<open>
  The errors of package \<^verbatim>\<open>database\<close>, the errors handed up from the wire codec, and
  a panic of the Go runtime (which ends the process).
\<close>
datatype error =
    ErrDbClosed
  | ErrDuplicateObject
  | ErrDbDoesNotExist
  | ErrDbUnknownType
  | ErrNotImplemented
  | ErrNonexistentObject
  | ErrWire string
  | Panic string

definition panicMessage :: string where
  "panicMessage = ''ALIEN INVASION IN PROGRESS. (bug)''"

subsection \<open>The collaborators outside the repository\<close>

text \<open>
  The header codec, the inventory hash and the identity module live in the library
  \<^verbatim>\<open>bmutil\<close>. The store only calls them, so they are parameters of the model.
\<close>

record header =
  expiresTime :: Time
  objType :: ObjectType

record MsgPubKey =
  Version :: uint64
  Tag :: ShaHash

record wire =
  DecodeMsgObjectHeader :: "bytes \<Rightarrow> error + header"
  CalcInventoryHash :: "bytes \<Rightarrow> bytes"
  NewShaHash :: "bytes \<Rightarrow> error + ShaHash"
  DecodePubKey :: "bytes \<Rightarrow> error + MsgPubKey"
  IdentityFromPubKeyMsg :: "MsgPubKey \<Rightarrow> error + bytes"

text \<open>
  \<open>IdentityFromPubKeyMsg\<close> stands for the call of that name followed by
  \<^verbatim>\<open>id.Address.Tag()\<close>: it yields the tag bytes of the decoded identity.
\<close>

subsection \<open>The store\<close>

record counter =
  ByCounter :: "uint64 \<rightharpoonup> ShaHash"
  CounterPos :: uint64

text \<open>
  The four fixed buckets are pointers in the source and \<open>None\<close> is the nil pointer.
  \<open>Close\<close> sets the three maps to nil; a nil map reads as the empty map, and every
  operation of this engine returns \<open>ErrDbClosed\<close> before it could write to one.
\<close>
record MemDb =
  objectsByHash :: "ShaHash \<rightharpoonup> bytes"
  pubKeyByTag :: "ShaHash \<rightharpoonup> bytes"
  msgCounter :: "counter option"
  broadcastCounter :: "counter option"
  pubKeyCounter :: "counter option"
  getPubKeyCounter :: "counter option"
  unknownObjCounter :: "ObjectType \<rightharpoonup> counter"
  closed :: bool

definition emptyCounter :: counter where
  "emptyCounter = \<lparr>ByCounter = Map.empty, CounterPos = 0\<rparr>"

definition newMemDb :: MemDb where
  "newMemDb = \<lparr>objectsByHash = Map.empty, pubKeyByTag = Map.empty,
     msgCounter = Some emptyCounter, broadcastCounter = Some emptyCounter,
     pubKeyCounter = Some emptyCounter, getPubKeyCounter = Some emptyCounter,
     unknownObjCounter = Map.empty, closed = False\<rparr>"

text \<open>\<^verbatim>\<open>counter.Insert\<close>: the position is a \<^verbatim>\<open>uint64\<close> and wraps.\<close>
definition counter_Insert :: "counter \<Rightarrow> ShaHash \<Rightarrow> counter" where
  "counter_Insert cmap hash =
     (let pos = CounterPos cmap + 1
      in cmap\<lparr>CounterPos := pos, ByCounter := (ByCounter cmap)(pos \<mapsto> hash)\<rparr>)"

text \<open>
  \<^verbatim>\<open>getCounterMap\<close> returns a pointer to the bucket of the type. For a type outside
  the four fixed ones it creates the bucket when there is none, so it returns the store
  as well.
\<close>
definition getCounterMap :: "MemDb \<Rightarrow> ObjectType \<Rightarrow> counter option \<times> MemDb" where
  "getCounterMap db t =
     (if t = ObjectTypeBroadcast then (broadcastCounter db, db)
      else if t = ObjectTypeMsg then (msgCounter db, db)
      else if t = ObjectTypePubKey then (pubKeyCounter db, db)
      else if t = ObjectTypeGetPubKey then (getPubKeyCounter db, db)
      else (case unknownObjCounter db t of
              Some count \<Rightarrow> (Some count, db)
            | None \<Rightarrow> (Some emptyCounter,
                db\<lparr>unknownObjCounter := (unknownObjCounter db)(t \<mapsto> emptyCounter)\<rparr>)))"

text \<open>
  A write through the pointer that \<open>getCounterMap db t\<close> returned: the bucket of
  type \<open>t\<close> becomes \<open>c\<close>.
\<close>
definition putCounter :: "MemDb \<Rightarrow> ObjectType \<Rightarrow> counter \<Rightarrow> MemDb" where
  "putCounter db t c =
     (if t = ObjectTypeBroadcast then db\<lparr>broadcastCounter := Some c\<rparr>
      else if t = ObjectTypeMsg then db\<lparr>msgCounter := Some c\<rparr>
      else if t = ObjectTypePubKey then db\<lparr>pubKeyCounter := Some c\<rparr>
      else if t = ObjectTypeGetPubKey then db\<lparr>getPubKeyCounter := Some c\<rparr>
      else db\<lparr>unknownObjCounter := (unknownObjCounter db)(t \<mapsto> c)\<rparr>)"

definition Close :: "MemDb \<Rightarrow> (error + unit) \<times> MemDb" where
  "Close db =
     (if closed db then (Inl ErrDbClosed, db)
      else (Inr (), db\<lparr>objectsByHash := Map.empty, pubKeyByTag := Map.empty,
              msgCounter := None, broadcastCounter := None,
              pubKeyCounter := None, getPubKeyCounter := None,
              unknownObjCounter := Map.empty, closed := True\<rparr>))"

definition RollbackClose :: "MemDb \<Rightarrow> (error + unit) \<times> MemDb" where
  "RollbackClose db = Close db"

definition Sync :: "MemDb \<Rightarrow> error + unit" where
  "Sync db = (if closed db then Inl ErrDbClosed else Inr ())"

definition ExistsObject :: "MemDb \<Rightarrow> ShaHash \<Rightarrow> error + bool" where
  "ExistsObject db hash =
     (if closed db then Inl ErrDbClosed
      else if objectsByHash db hash \<noteq> None then Inr True
      else Inr False)"

definition fetchObjectByHash :: "MemDb \<Rightarrow> ShaHash \<Rightarrow> error + bytes" where
  "fetchObjectByHash db hash =
     (case objectsByHash db hash of
        Some object \<Rightarrow> Inr object
      | None \<Rightarrow> Inl ErrNonexistentObject)"

definition FetchObjectByHash :: "MemDb \<Rightarrow> ShaHash \<Rightarrow> error + bytes" where
  "FetchObjectByHash db hash =
     (if closed db then Inl ErrDbClosed else fetchObjectByHash db hash)"

definition FetchObjectByCounter ::
  "MemDb \<Rightarrow> ObjectType \<Rightarrow> uint64 \<Rightarrow> (error + bytes) \<times> MemDb" where
  "FetchObjectByCounter db t cnt =
     (if closed db then (Inl ErrDbClosed, db)
      else case getCounterMap db t of
        (None, db1) \<Rightarrow> (Inl ErrNotImplemented, db1)
      | (Some counterMap, db1) \<Rightarrow>
          (case ByCounter counterMap cnt of
             None \<Rightarrow> (Inl ErrNonexistentObject, db1)
           | Some hash \<Rightarrow>
               (case fetchObjectByHash db1 hash of
                  Inl err \<Rightarrow> (Inl (Panic panicMessage), db1)
                | Inr obj \<Rightarrow> (Inr obj, db1))))"

subsection \<open>Ranging over a map\<close>

text \<open>
  \<^verbatim>\<open>for k := range m\<close> visits every key of \<open>m\<close> once, in an order the runtime
  chooses. \<open>mapRange m order\<close> is the visit when the runtime's order is \<open>order\<close>: the
  keys of \<open>m\<close> as they come in \<open>order\<close>. It is a visit of the whole map when
  \<open>order\<close> has no repetition and holds every key of \<open>m\<close>.
\<close>
definition mapRange :: "('k \<rightharpoonup> 'v) \<Rightarrow> 'k list \<Rightarrow> 'k list" where
  "mapRange m order = filter (\<lambda>k. m k \<noteq> None) order"


subsection \<open>FetchObjectsFromCounter\<close>

text \<open>
  The first loop: \<open>ks\<close> are the keys still to visit, \<open>keys\<close> the slice built so far and
  \<open>c\<close> its length as the source counts it.
\<close>
fun collectKeys :: "uint64 \<Rightarrow> uint64 \<Rightarrow> uint64 list \<Rightarrow> uint64 list \<Rightarrow> uint64 \<Rightarrow> uint64 list" where
  "collectKeys cnt count [] keys c = keys"
| "collectKeys cnt count (k # ks) keys c =
     (if k < cnt then collectKeys cnt count ks keys c
      else if c \<ge> count then keys
      else collectKeys cnt count ks (keys @ [k]) (c + 1))"

text \<open>
  The second loop: a key whose hash is not in the hash index is the panic of the source;
  any other error of the lookup is returned.
\<close>
fun fetchObjects :: "MemDb \<Rightarrow> counter \<Rightarrow> uint64 list \<Rightarrow> bytes list \<Rightarrow> error + bytes list" where
  "fetchObjects db counterMap [] objects = Inr objects"
| "fetchObjects db counterMap (v # vs) objects =
     (case ByCounter counterMap v of
        None \<Rightarrow> Inl (Panic ''nil pointer dereference'')
      | Some hash \<Rightarrow>
          (case fetchObjectByHash db hash of
             Inl err \<Rightarrow>
               (if err = ErrNonexistentObject then Inl (Panic panicMessage) else Inl err)
           | Inr obj \<Rightarrow> fetchObjects db counterMap vs (objects @ [obj])))"

definition FetchObjectsFromCounter ::
  "MemDb \<Rightarrow> ObjectType \<Rightarrow> uint64 \<Rightarrow> uint64 \<Rightarrow> uint64 list \<Rightarrow>
     (error + bytes list \<times> uint64) \<times> MemDb" where
  "FetchObjectsFromCounter db t cnt count order =
     (if closed db then (Inl ErrDbClosed, db)
      else case getCounterMap db t of
        (None, db1) \<Rightarrow> (Inl ErrNotImplemented, db1)
      | (Some counterMap, db1) \<Rightarrow>
          (let keys = sort (collectKeys cnt count (mapRange (ByCounter counterMap) order) [] 0);
               newCounter = (if length keys = 0 then 0 else keys ! (length keys - 1))
           in case fetchObjects db1 counterMap keys [] of
                Inl err \<Rightarrow> (Inl err, db1)
              | Inr objects \<Rightarrow> (Inr (objects, newCounter), db1)))"

subsection \<open>Stubs, GetCounter\<close>

definition FetchIdentityByAddress :: "MemDb \<Rightarrow> 'a \<Rightarrow> error + 'b" where
  "FetchIdentityByAddress db addr = Inl ErrNotImplemented"

definition ExistsGetPubKey :: "MemDb \<Rightarrow> 'a \<Rightarrow> error + bool" where
  "ExistsGetPubKey db addr = Inl ErrNotImplemented"

definition FetchRandomObject :: "MemDb \<Rightarrow> error + bytes" where
  "FetchRandomObject db = Inl ErrNotImplemented"

text \<open>
  \<^verbatim>\<open>getCounterRef\<close> returns the address of the bucket's position, which is never nil;
  it panics when there is no bucket.
\<close>
definition getCounterRef :: "MemDb \<Rightarrow> ObjectType \<Rightarrow> (error + uint64 option) \<times> MemDb" where
  "getCounterRef db t =
     (case getCounterMap db t of
        (None, db1) \<Rightarrow> (Inl (Panic panicMessage), db1)
      | (Some counterMap, db1) \<Rightarrow> (Inr (Some (CounterPos counterMap)), db1))"

definition GetCounter :: "MemDb \<Rightarrow> ObjectType \<Rightarrow> (error + uint64) \<times> MemDb" where
  "GetCounter db t =
     (if closed db then (Inl ErrDbClosed, db)
      else case getCounterRef db t of
        (Inl err, db1) \<Rightarrow> (Inl err, db1)
      | (Inr (Some c), db1) \<Rightarrow> (Inr c, db1)
      | (Inr None, db1) \<Rightarrow> (Inl ErrNotImplemented, db1))"

subsection \<open>InsertObject\<close>

text \<open>
  The tag of a public key object (the body of \<^verbatim>\<open>if objType == wire.ObjectTypePubKey\<close>
  up to the hash of the tag). A version outside the three cases leaves the tag nil.
\<close>
definition pubKeyTag :: "wire \<Rightarrow> bytes \<Rightarrow> error + ShaHash" where
  "pubKeyTag w data =
     (case DecodePubKey w data of
        Inl err \<Rightarrow> Inl err
      | Inr msg \<Rightarrow>
          (if Version msg = SimplePubKeyVersion \<or> Version msg = ExtendedPubKeyVersion then
             (case IdentityFromPubKeyMsg w msg of
                Inl err \<Rightarrow> Inl err
              | Inr tag \<Rightarrow> NewShaHash w tag)
           else if Version msg = EncryptedPubKeyVersion then NewShaHash w (Tag msg)
           else NewShaHash w []))"

definition InsertObject :: "wire \<Rightarrow> MemDb \<Rightarrow> bytes \<Rightarrow> (error + ShaHash \<times> uint64) \<times> MemDb" where
  "InsertObject w db data =
     (if closed db then (Inl ErrDbClosed, db)
      else case DecodeMsgObjectHeader w data of
        Inl err \<Rightarrow> (Inl err, db)
      | Inr hdr \<Rightarrow>
          (case NewShaHash w (CalcInventoryHash w data) of
             Inl err \<Rightarrow> (Inl err, db)
           | Inr hash \<Rightarrow>
               (let dataInsert = data in
                case (if objType hdr = ObjectTypePubKey
                      then (case pubKeyTag w data of
                              Inl err \<Rightarrow> Inl err
                            | Inr tagH \<Rightarrow>
                                Inr (db\<lparr>pubKeyByTag := (pubKeyByTag db)(tagH \<mapsto> dataInsert)\<rparr>))
                      else Inr db) of
                  Inl err \<Rightarrow> (Inl err, db)
                | Inr db1 \<Rightarrow>
                    (let db2 = db1\<lparr>objectsByHash := (objectsByHash db1)(hash \<mapsto> dataInsert)\<rparr>
                     in case getCounterMap db2 (objType hdr) of
                          (None, db3) \<Rightarrow> (Inr (hash, 0), db3)
                        | (Some counterMap, db3) \<Rightarrow>
                            (let cm = counter_Insert counterMap hash
                             in (Inr (hash, CounterPos cm),
                                 putCounter db3 (objType hdr) cm))))))"

subsection \<open>Removal\<close>

text \<open>
  The scan \<^verbatim>\<open>for k, v := range counterMap.ByCounter\<close> that deletes the first entry
  whose hash is \<open>hash\<close> and then breaks.
\<close>
definition deleteFirstMatch :: "counter \<Rightarrow> ShaHash \<Rightarrow> uint64 list \<Rightarrow> counter" where
  "deleteFirstMatch counterMap hash order =
     (case find (\<lambda>k. ByCounter counterMap k = Some hash) (mapRange (ByCounter counterMap) order) of
        None \<Rightarrow> counterMap
      | Some k \<Rightarrow> counterMap\<lparr>ByCounter := (ByCounter counterMap)(k := None)\<rparr>)"

text \<open>
  The part shared by \<^verbatim>\<open>RemoveObject\<close> and the sweep: take the object out of its
  counter bucket, if the type has one, and out of the hash index.
\<close>
definition dropObject :: "MemDb \<Rightarrow> ObjectType \<Rightarrow> ShaHash \<Rightarrow> uint64 list \<Rightarrow> MemDb" where
  "dropObject db t hash order =
     (let db2 = (case getCounterMap db t of
                   (None, db1) \<Rightarrow> db1
                 | (Some counterMap, db1) \<Rightarrow>
                     putCounter db1 t (deleteFirstMatch counterMap hash order))
      in db2\<lparr>objectsByHash := (objectsByHash db2)(hash := None)\<rparr>)"

text \<open>
  When the header of the stored object does not decode, the source panics; the process
  ends there and the model returns the store as it found it.
\<close>
definition RemoveObject :: "wire \<Rightarrow> MemDb \<Rightarrow> ShaHash \<Rightarrow> uint64 list \<Rightarrow> (error + unit) \<times> MemDb" where
  "RemoveObject w db hash order =
     (if closed db then (Inl ErrDbClosed, db)
      else case objectsByHash db hash of
        None \<Rightarrow> (Inl ErrNonexistentObject, db)
      | Some obj \<Rightarrow>
          (case DecodeMsgObjectHeader w obj of
             Inl err \<Rightarrow> (Inl (Panic panicMessage), db)
           | Inr hdr \<Rightarrow> (Inr (), dropObject db (objType hdr) hash order)))"

definition RemoveObjectByCounter ::
  "MemDb \<Rightarrow> ObjectType \<Rightarrow> uint64 \<Rightarrow> (error + unit) \<times> MemDb" where
  "RemoveObjectByCounter db t cnt =
     (if closed db then (Inl ErrDbClosed, db)
      else case getCounterMap db t of
        (None, db1) \<Rightarrow> (Inl ErrNotImplemented, db1)
      | (Some counterMap, db1) \<Rightarrow>
          (case ByCounter counterMap cnt of
             None \<Rightarrow> (Inl ErrNonexistentObject, db1)
           | Some hash \<Rightarrow>
               (let db2 = putCounter db1 t
                            (counterMap\<lparr>ByCounter := (ByCounter counterMap)(cnt := None)\<rparr>)
                in (Inr (), db2\<lparr>objectsByHash := (objectsByHash db2)(hash := None)\<rparr>))))"

text \<open>
  The sweep ranges over the hash index; for every object it reads the clock, and for an
  expired one it scans the counter bucket. One step of the visit is a hash, the clock
  at that step and the order of the scan. A hash that is not (or no longer) in the index
  is not visited.
\<close>
type_synonym sweepStep = "ShaHash \<times> Time \<times> uint64 list"

fun sweep :: "wire \<Rightarrow> MemDb \<Rightarrow> sweepStep list \<Rightarrow> (error + unit) \<times> MemDb" where
  "sweep w db [] = (Inr (), db)"
| "sweep w db ((hash, now, order) # rest) =
     (case objectsByHash db hash of
        None \<Rightarrow> sweep w db rest
      | Some obj \<Rightarrow>
          (case DecodeMsgObjectHeader w obj of
             Inl err \<Rightarrow> (Inl (Panic panicMessage), db)
           | Inr hdr \<Rightarrow>
               (if now - Hour * 3 > expiresTime hdr \<and> objType hdr \<noteq> ObjectTypePubKey
                then sweep w (dropObject db (objType hdr) hash order) rest
                else sweep w db rest)))"

definition RemoveExpiredObjects :: "wire \<Rightarrow> MemDb \<Rightarrow> sweepStep list \<Rightarrow> (error + unit) \<times> MemDb" where
  "RemoveExpiredObjects w db steps =
     (if closed db then (Inl ErrDbClosed, db) else sweep w db steps)"

definition RemovePubKey :: "MemDb \<Rightarrow> ShaHash \<Rightarrow> (error + unit) \<times> MemDb" where
  "RemovePubKey db tag =
     (if closed db then (Inl ErrDbClosed, db)
      else case pubKeyByTag db tag of
        None \<Rightarrow> (Inl ErrNonexistentObject, db)
      | Some _ \<Rightarrow> (Inr (), db\<lparr>pubKeyByTag := (pubKeyByTag db)(tag := None)\<rparr>))"

subsection \<open>The earlier engine\<close>

record object_legacy =
  obj_objType :: ObjectType
  obj_counter :: uint64
  obj_data :: bytes

record MemDb_legacy =
  objectsByHash_legacy :: "ShaHash \<rightharpoonup> object_legacy"
  msgByCounter :: "(uint64 \<rightharpoonup> ShaHash) option"
  broadcastByCounter :: "(uint64 \<rightharpoonup> ShaHash) option"
  closed_legacy :: bool

definition newMemDb_legacy :: MemDb_legacy where
  "newMemDb_legacy = \<lparr>objectsByHash_legacy = Map.empty, msgByCounter = Some Map.empty,
     broadcastByCounter = Some Map.empty, closed_legacy = False\<rparr>"

definition getCounterMap_legacy :: "MemDb_legacy \<Rightarrow> ObjectType \<Rightarrow> (uint64 \<rightharpoonup> ShaHash) option" where
  "getCounterMap_legacy db t =
     (if t = ObjectTypeBroadcast then broadcastByCounter db
      else if t = ObjectTypeMsg then msgByCounter db
      else None)"

definition Close_legacy :: "MemDb_legacy \<Rightarrow> (error + unit) \<times> MemDb_legacy" where
  "Close_legacy db =
     (if closed_legacy db then (Inl ErrDbClosed, db)
      else (Inr (), db\<lparr>objectsByHash_legacy := Map.empty, msgByCounter := None,
              broadcastByCounter := None, closed_legacy := True\<rparr>))"

definition ExistsObject_legacy :: "MemDb_legacy \<Rightarrow> ShaHash \<Rightarrow> error + bool" where
  "ExistsObject_legacy db hash =
     (if closed_legacy db then Inl ErrDbClosed
      else if objectsByHash_legacy db hash \<noteq> None then Inr True
      else Inr False)"

definition fetchObjectByHash_legacy :: "MemDb_legacy \<Rightarrow> ShaHash \<Rightarrow> error + bytes" where
  "fetchObjectByHash_legacy db hash =
     (case objectsByHash_legacy db hash of
        Some object \<Rightarrow> Inr (obj_data object)
      | None \<Rightarrow> Inl ErrNonexistentObject)"

definition FetchObjectByHash_legacy :: "MemDb_legacy \<Rightarrow> ShaHash \<Rightarrow> error + bytes" where
  "FetchObjectByHash_legacy db hash =
     (if closed_legacy db then Inl ErrDbClosed else fetchObjectByHash_legacy db hash)"

definition FetchObjectByCounter_legacy :: "MemDb_legacy \<Rightarrow> ObjectType \<Rightarrow> uint64 \<Rightarrow> error + bytes" where
  "FetchObjectByCounter_legacy db t cnt =
     (if closed_legacy db then Inl ErrDbClosed
      else case getCounterMap_legacy db t of
        None \<Rightarrow> Inl ErrNotImplemented
      | Some counterMap \<Rightarrow>
          (case counterMap cnt of
             None \<Rightarrow> Inl ErrNonexistentObject
           | Some hash \<Rightarrow>
               (case objectsByHash_legacy db hash of
                  None \<Rightarrow> Inl (Panic ''alien invasion, not supposed to happen (BUG)'')
                | Some obj \<Rightarrow> Inr (obj_data obj))))"

text \<open>A key that is not in a map of hashes reads as the zero hash.\<close>
fun fetchObjects_legacy ::
  "MemDb_legacy \<Rightarrow> (uint64 \<rightharpoonup> ShaHash) \<Rightarrow> uint64 list \<Rightarrow> bytes list \<Rightarrow> error + bytes list" where
  "fetchObjects_legacy db counterMap [] objects = Inr objects"
| "fetchObjects_legacy db counterMap (v # vs) objects =
     (let hash = (case counterMap v of Some h \<Rightarrow> h | None \<Rightarrow> replicate 32 0)
      in case fetchObjectByHash_legacy db hash of
           Inl err \<Rightarrow>
             (if err = ErrNonexistentObject
              then Inl (Panic ''alien invasion, not supposed to happen (BUG)'')
              else Inl err)
         | Inr obj \<Rightarrow> fetchObjects_legacy db counterMap vs (objects @ [obj]))"

text \<open>
  This version does not look at \<open>closed\<close>, and it reads the last key without asking
  whether there is one.
\<close>
definition FetchObjectsFromCounter_legacy ::
  "MemDb_legacy \<Rightarrow> ObjectType \<Rightarrow> uint64 \<Rightarrow> uint64 \<Rightarrow> uint64 list \<Rightarrow> error + bytes list \<times> uint64" where
  "FetchObjectsFromCounter_legacy db t cnt count order =
     (case getCounterMap_legacy db t of
        None \<Rightarrow> Inl ErrNotImplemented
      | Some counterMap \<Rightarrow>
          (let keys = sort (collectKeys cnt count (mapRange counterMap order) [] 0)
           in if length keys = 0 then Inl (Panic ''index out of range'')
              else (let newCounter = keys ! (length keys - 1)
                    in case fetchObjects_legacy db counterMap keys [] of
                         Inl err \<Rightarrow> Inl err
                       | Inr objects \<Rightarrow> Inr (objects, newCounter))))"

definition GetCounter_legacy :: "MemDb_legacy \<Rightarrow> ObjectType \<Rightarrow> error + uint64" where
  "GetCounter_legacy db t = Inl ErrNotImplemented"

definition InsertObject_legacy :: "MemDb_legacy \<Rightarrow> ObjectType \<Rightarrow> bytes \<Rightarrow> error + unit" where
  "InsertObject_legacy db t data = Inl ErrNotImplemented"

definition RemoveObject_legacy :: "MemDb_legacy \<Rightarrow> ShaHash \<Rightarrow> error + unit" where
  "RemoveObject_legacy db hash = Inl ErrNotImplemented"

definition RemoveObjectByCounter_legacy :: "MemDb_legacy \<Rightarrow> ObjectType \<Rightarrow> uint64 \<Rightarrow> error + unit" where
  "RemoveObjectByCounter_legacy db t cnt = Inl ErrNotImplemented"

definition RollbackClose_legacy :: "MemDb_legacy \<Rightarrow> (error + unit) \<times> MemDb_legacy" where
  "RollbackClose_legacy db = Close_legacy db"

definition Sync_legacy :: "MemDb_legacy \<Rightarrow> error + unit" where
  "Sync_legacy db = (if closed_legacy db then Inl ErrDbClosed else Inr ())"

subsection \<open>Observers\<close>

definition fixedType :: "ObjectType \<Rightarrow> bool" where
  "fixedType t = (t = ObjectTypeBroadcast \<or> t = ObjectTypeMsg \<or> t = ObjectTypePubKey \<or>
     t = ObjectTypeGetPubKey)"

text \<open>The bucket of a type as the store holds it now, without creating one.\<close>
definition bucket :: "MemDb \<Rightarrow> ObjectType \<Rightarrow> counter option" where
  "bucket db t =
     (if t = ObjectTypeBroadcast then broadcastCounter db
      else if t = ObjectTypeMsg then msgCounter db
      else if t = ObjectTypePubKey then pubKeyCounter db
      else if t = ObjectTypeGetPubKey then getPubKeyCounter db
      else unknownObjCounter db t)"

definition counterEntry :: "MemDb \<Rightarrow> ObjectType \<Rightarrow> uint64 \<Rightarrow> ShaHash option" where
  "counterEntry db t k = (case bucket db t of None \<Rightarrow> None | Some c \<Rightarrow> ByCounter c k)"

definition counterPosition :: "MemDb \<Rightarrow> ObjectType \<Rightarrow> uint64" where
  "counterPosition db t = (case bucket db t of None \<Rightarrow> 0 | Some c \<Rightarrow> CounterPos c)"

text \<open>
  The store as \<open>newMemDb\<close> makes it and as every operation but \<open>Close\<close> keeps it: open,
  with the four fixed buckets allocated.
\<close>
definition allocated :: "MemDb \<Rightarrow> bool" where
  "allocated db = (\<not> closed db \<and> msgCounter db \<noteq> None \<and> broadcastCounter db \<noteq> None \<and>
     pubKeyCounter db \<noteq> None \<and> getPubKeyCounter db \<noteq> None)"

text \<open>Every hash of the bucket has its object in the hash index.\<close>
definition resolvable :: "MemDb \<Rightarrow> counter \<Rightarrow> bool" where
  "resolvable db c = (\<forall>k hash. ByCounter c k = Some hash \<longrightarrow> objectsByHash db hash \<noteq> None)"

subsection \<open>The selection as the specification words it\<close>

text \<open>
  The specification of \<open>FetchObjectsFromCounter\<close>: all keys of the bucket from the
  cursor on, sorted ascending, cut to at most \<open>count\<close>. The keys of the bucket are read
  off a list \<open>order\<close> that holds them all.
\<close>
definition liveKeysFrom :: "(uint64 \<rightharpoonup> ShaHash) \<Rightarrow> uint64 \<Rightarrow> uint64 list \<Rightarrow> uint64 list" where
  "liveKeysFrom m cnt order = sort (filter (\<lambda>k. cnt \<le> k) (mapRange m order))"

definition specKeys :: "(uint64 \<rightharpoonup> ShaHash) \<Rightarrow> uint64 \<Rightarrow> uint64 \<Rightarrow> uint64 list \<Rightarrow> uint64 list" where
  "specKeys m cnt count order = take (unat count) (liveKeysFrom m cnt order)"

text \<open>The bytes stored under a counter of a bucket (empty where there are none).\<close>
definition objectAt :: "MemDb \<Rightarrow> counter \<Rightarrow> uint64 \<Rightarrow> bytes" where
  "objectAt db c k =
     (case ByCounter c k of
        None \<Rightarrow> []
      | Some hash \<Rightarrow> (case objectsByHash db hash of None \<Rightarrow> [] | Some obj \<Rightarrow> obj))"

subsection \<open>Resuming from the returned counter\<close>

text \<open>
  \<^verbatim>\<open>sendOldObjects\<close> of the RPC server fetches a batch from the cursor, sends it to the
  client and, when the batch is full, calls itself with the returned \<^verbatim>\<open>lastCount\<close>.
  The batch size \<^verbatim>\<open>rpcCounterObjectsSize\<close> is a constant of the server and a parameter
  here. \<open>orders\<close> holds, for each successive call of \<open>FetchObjectsFromCounter\<close>, the order
  in which the runtime ranges over the bucket; when the orders run out the run is still
  \<open>Pending\<close>. The result is the list of batches sent.
\<close>
datatype status = Done | Pending | Broken error

fun sendOldObjects ::
  "uint64 \<Rightarrow> MemDb \<Rightarrow> ObjectType \<Rightarrow> uint64 \<Rightarrow> uint64 list list \<Rightarrow> bytes list list \<times> status" where
  "sendOldObjects batch db t fromCounter [] = ([], Pending)"
| "sendOldObjects batch db t fromCounter (order # orders) =
     (case FetchObjectsFromCounter db t fromCounter batch order of
        (Inl err, db1) \<Rightarrow> ([], Broken err)
      | (Inr (objs, lastCount), db1) \<Rightarrow>
          (if length objs = unat batch
           then (case sendOldObjects batch db1 t lastCount orders of
                   (sent, st) \<Rightarrow> (objs # sent, st))
           else ([objs], Done)))"


subsection \<open>Sequences of calls\<close>

text \<open>
  The writing calls of the store. A removal carries the order of its range loops.
\<close>
datatype call =
    CallInsert bytes
  | CallRemove ShaHash "uint64 list"
  | CallRemoveByCounter ObjectType uint64
  | CallRemoveExpired "sweepStep list"

definition isPanic :: "error + 'a \<Rightarrow> bool" where
  "isPanic r = (case r of Inl (Panic _) \<Rightarrow> True | _ \<Rightarrow> False)"

text \<open>
  The counters that the successful inserts of objects of type \<open>t\<close> return, in the order
  of the calls. A panic ends the process, and the sequence with it.
\<close>
fun insertedCounters :: "wire \<Rightarrow> ObjectType \<Rightarrow> MemDb \<Rightarrow> call list \<Rightarrow> uint64 list" where
  "insertedCounters w t db [] = []"
| "insertedCounters w t db (CallInsert data # cs) =
     (case InsertObject w db data of
        (Inl err, db1) \<Rightarrow> insertedCounters w t db1 cs
      | (Inr (hash, c), db1) \<Rightarrow>
          (if map_sum id objType (DecodeMsgObjectHeader w data) = Inr t
           then c # insertedCounters w t db1 cs
           else insertedCounters w t db1 cs))"
| "insertedCounters w t db (CallRemove hash order # cs) =
     (case RemoveObject w db hash order of
        (r, db1) \<Rightarrow> if isPanic r then [] else insertedCounters w t db1 cs)"
| "insertedCounters w t db (CallRemoveByCounter t' cnt # cs) =
     (case RemoveObjectByCounter db t' cnt of
        (r, db1) \<Rightarrow> if isPanic r then [] else insertedCounters w t db1 cs)"
| "insertedCounters w t db (CallRemoveExpired steps # cs) =
     (case RemoveExpiredObjects w db steps of
        (r, db1) \<Rightarrow> if isPanic r then [] else insertedCounters w t db1 cs)"

subsection \<open>When the two indices agree\<close>

text \<open>
  The state the source takes for granted (it panics where it finds otherwise): every
  stored object has a header that decodes; every entry of a counter bucket names an
  object of the hash index whose header carries the type of the bucket; no hash sits
  under two counters of a bucket.
\<close>
definition consistent :: "wire \<Rightarrow> MemDb \<Rightarrow> bool" where
  "consistent w db =
     ((\<forall>hash obj. objectsByHash db hash = Some obj \<longrightarrow>
          (\<exists>hdr. DecodeMsgObjectHeader w obj = Inr hdr)) \<and>
      (\<forall>t k hash. counterEntry db t k = Some hash \<longrightarrow>
          (\<exists>obj hdr. objectsByHash db hash = Some obj \<and>
              DecodeMsgObjectHeader w obj = Inr hdr \<and> objType hdr = t) \<and>
          (\<forall>k'. counterEntry db t k' = Some hash \<longrightarrow> k' = k)))"

text \<open>A range order that holds every key of every bucket of the store.\<close>
definition covers :: "MemDb \<Rightarrow> uint64 list \<Rightarrow> bool" where
  "covers db order = (\<forall>t k hash. counterEntry db t k = Some hash \<longrightarrow> k \<in> set order)"

text \<open>The test of the sweep on one object at one reading of the clock.\<close>
definition expiredAt :: "wire \<Rightarrow> Time \<Rightarrow> bytes \<Rightarrow> bool" where
  "expiredAt w now obj =
     (case DecodeMsgObjectHeader w obj of
        Inl err \<Rightarrow> False
      | Inr hdr \<Rightarrow> now - Hour * 3 > expiresTime hdr \<and> objType hdr \<noteq> ObjectTypePubKey)"

subsection \<open>A codec to run the model\<close>

text \<open>
  To evaluate the store on concrete objects the parameters need values. \<open>testWire\<close> is a
  small stand-in for the library: the first byte of an object is its type, the second its
  expiry in hours, the third (for a public key) its version; the inventory hash is the
  object cut or zero-padded to 32 bytes. The theorems about the store hold for every
  codec; \<open>testWire\<close> only serves to run them.
\<close>

definition testHash :: "bytes \<Rightarrow> bytes" where
  "testHash data = take 32 (data @ replicate 32 0)"

definition testWire :: wire where
  "testWire = \<lparr>
     DecodeMsgObjectHeader = (\<lambda>data. case data of
         t # e # rest \<Rightarrow> Inr \<lparr>expiresTime = uint e * Hour, objType = ucast t\<rparr>
       | _ \<Rightarrow> Inl (ErrWire ''short header'')),
     CalcInventoryHash = testHash,
     NewShaHash = (\<lambda>b. if length b = 32 then Inr b else Inl (ErrWire ''invalid sha length'')),
     DecodePubKey = (\<lambda>data. case data of
         t # e # v # rest \<Rightarrow> Inr \<lparr>Version = ucast v, Tag = testHash rest\<rparr>
       | _ \<Rightarrow> Inl (ErrWire ''short pubkey'')),
     IdentityFromPubKeyMsg = (\<lambda>msg. Inr (Tag msg))\<rparr>"

text \<open>Two message objects and a public key; \<open>msgOld\<close> and \<open>keyOld\<close> expire at hour 1.\<close>
definition msgOld :: bytes where "msgOld = [2, 1, 65]"
definition msgNew :: bytes where "msgNew = [2, 200, 66]"
definition keyOld :: bytes where "keyOld = [1, 1, 4, 67]"

text \<open>The store after \<open>msgOld\<close> and \<open>msgNew\<close>, and after \<open>msgOld\<close> twice.\<close>
definition twoMsgs :: MemDb where
  "twoMsgs = snd (InsertObject testWire (snd (InsertObject testWire newMemDb msgOld)) msgNew)"

definition sameTwice :: MemDb where
  "sameTwice = snd (InsertObject testWire (snd (InsertObject testWire newMemDb msgOld)) msgOld)"

text \<open>The store after the expired public key and the expired message.\<close>
definition keyAndMsg :: MemDb where
  "keyAndMsg = snd (InsertObject testWire (snd (InsertObject testWire newMemDb keyOld)) msgOld)"

text \<open>Three inserts of messages with two removals in between.\<close>
definition someCalls :: "call list" where
  "someCalls = [CallInsert msgOld, CallRemove (testHash msgOld) [1], CallInsert msgNew,
     CallRemoveByCounter ObjectTypeMsg 2, CallInsert msgOld]"


section \<open>Lemmas and theorems\<close>

lemmas type_defs =
  ObjectTypeGetPubKey_def ObjectTypePubKey_def ObjectTypeMsg_def ObjectTypeBroadcast_def
  SimplePubKeyVersion_def ExtendedPubKeyVersion_def EncryptedPubKeyVersion_def

lemmas run_defs =
  type_defs testWire_def testHash_def msgOld_def msgNew_def keyOld_def newMemDb_def
  emptyCounter_def getCounterMap_def putCounter_def counter_Insert_def pubKeyTag_def
  InsertObject_def fetchObjectByHash_def FetchObjectByHash_def Let_def


lemmas word_cmp = word_le_nat_alt word_less_nat_alt

lemmas fetch_defs =
  FetchObjectsFromCounter_def mapRange_def getCounterMap_def fetchObjectByHash_def
  newMemDb_def type_defs Let_def

lemmas remove_defs =
  RemoveObject_def RemoveExpiredObjects_def dropObject_def deleteFirstMatch_def mapRange_def
  getCounterMap_def putCounter_def testWire_def counterEntry_def bucket_def
  FetchObjectByCounter_def fetchObjectByHash_def newMemDb_def type_defs Let_def

section \<open>The stores used as examples\<close>

lemma twoMsgs_eq:
  "twoMsgs = newMemDb\<lparr>
     objectsByHash := [testHash msgOld \<mapsto> msgOld, testHash msgNew \<mapsto> msgNew],
     msgCounter := Some \<lparr>ByCounter = [1 \<mapsto> testHash msgOld, 2 \<mapsto> testHash msgNew],
                         CounterPos = 2\<rparr>\<rparr>"
  by (simp add: twoMsgs_def run_defs)

lemma sameTwice_eq:
  "sameTwice = newMemDb\<lparr>
     objectsByHash := [testHash msgOld \<mapsto> msgOld],
     msgCounter := Some \<lparr>ByCounter = [1 \<mapsto> testHash msgOld, 2 \<mapsto> testHash msgOld],
                         CounterPos = 2\<rparr>\<rparr>"
  by (simp add: sameTwice_def run_defs)

lemma hashes_differ: "testHash msgOld \<noteq> testHash msgNew"
  by (simp add: testHash_def msgOld_def msgNew_def)

section \<open>Frame lemmas\<close>

lemma getCounterMap_frame [simp]:
  "objectsByHash (snd (getCounterMap db t)) = objectsByHash db"
  "pubKeyByTag (snd (getCounterMap db t)) = pubKeyByTag db"
  "closed (snd (getCounterMap db t)) = closed db"
  by (simp_all add: getCounterMap_def split: option.splits)

lemma putCounter_frame [simp]:
  "objectsByHash (putCounter db t c) = objectsByHash db"
  "pubKeyByTag (putCounter db t c) = pubKeyByTag db"
  "closed (putCounter db t c) = closed db"
  by (simp_all add: putCounter_def)

lemma dropObject_frame [simp]:
  "pubKeyByTag (dropObject db t hash order) = pubKeyByTag db"
  "closed (dropObject db t hash order) = closed db"
  "objectsByHash (dropObject db t hash order) = (objectsByHash db)(hash := None)"
  by (simp_all add: dropObject_def Let_def case_prod_beta split: option.splits)

section \<open>Round trip, failed inserts, independence of the two indices\<close>

text \<open>
  C8: when \<open>InsertObject\<close> accepts the bytes \<open>data\<close> and returns \<open>hash\<close>, a following
  \<open>FetchObjectByHash\<close> of \<open>hash\<close> succeeds and returns \<open>data\<close>.
\<close>
theorem insert_fetch_roundtrip:
  assumes "InsertObject w db data = (Inr (hash, c), db')"
  shows "FetchObjectByHash db' hash = Inr data"
  using assms
  by (auto simp: InsertObject_def FetchObjectByHash_def fetchObjectByHash_def Let_def
      case_prod_beta split: if_splits sum.splits option.splits)

theorem insert_fetch_roundtrip_witness:
  "fst (InsertObject testWire newMemDb msgOld) = Inr (testHash msgOld, 1) \<and>
   FetchObjectByHash (snd (InsertObject testWire newMemDb msgOld)) (testHash msgOld) = Inr msgOld"
proof -
  have res: "fst (InsertObject testWire newMemDb msgOld) = Inr (testHash msgOld, 1)"
    by (simp add: run_defs)
  then have run: "InsertObject testWire newMemDb msgOld =
      (Inr (testHash msgOld, 1), snd (InsertObject testWire newMemDb msgOld))"
    by (simp add: prod_eq_iff)
  from res insert_fetch_roundtrip [OF run] show ?thesis
    by blast
qed

text \<open>
  C9: when \<open>InsertObject\<close> returns an error, the store is the one it was given: hash
  index, tag index and every counter bucket with its position are unchanged.
\<close>
theorem insert_error_unchanged:
  assumes "InsertObject w db data = (Inl err, db')"
  shows "db' = db"
  using assms
  by (auto simp: InsertObject_def Let_def case_prod_beta
      split: if_splits sum.splits option.splits)

theorem insert_error_unchanged_witness:
  "InsertObject testWire newMemDb [2] = (Inl (ErrWire ''short header''), newMemDb)"
proof -
  have res: "fst (InsertObject testWire newMemDb [2]) = Inl (ErrWire ''short header'')"
    by (simp add: run_defs)
  then have run: "InsertObject testWire newMemDb [2] =
      (Inl (ErrWire ''short header''), snd (InsertObject testWire newMemDb [2]))"
    by (simp add: prod_eq_iff)
  from res insert_error_unchanged [OF run] show ?thesis
    by (simp add: prod_eq_iff)
qed

text \<open>
  C10: \<open>RemovePubKey\<close> leaves the hash index, and so the answer of \<open>ExistsObject\<close> for
  every hash, as it was; \<open>RemoveObject\<close> leaves the tag index as it was.
\<close>
theorem tag_hash_independence:
  "ExistsObject (snd (RemovePubKey db tag)) hash = ExistsObject db hash \<and>
   objectsByHash (snd (RemovePubKey db tag)) = objectsByHash db \<and>
   pubKeyByTag (snd (RemoveObject w db hash order)) = pubKeyByTag db"
  by (simp add: RemovePubKey_def RemoveObject_def ExistsObject_def
      split: option.splits sum.splits)

section \<open>The closed store\<close>

text \<open>
  In the engine with counter buckets every operation looks at \<open>closed\<close> first.
\<close>
lemma closed_store_contract:
  assumes "Close db0 = (Inr (), db)"
  shows "ExistsObject db hash = Inl ErrDbClosed"
    and "FetchObjectByHash db hash = Inl ErrDbClosed"
    and "FetchObjectByCounter db t cnt = (Inl ErrDbClosed, db)"
    and "FetchObjectsFromCounter db t cnt count order = (Inl ErrDbClosed, db)"
    and "GetCounter db t = (Inl ErrDbClosed, db)"
    and "InsertObject w db data = (Inl ErrDbClosed, db)"
    and "RemoveObject w db hash order = (Inl ErrDbClosed, db)"
    and "RemoveObjectByCounter db t cnt = (Inl ErrDbClosed, db)"
    and "RemoveExpiredObjects w db steps = (Inl ErrDbClosed, db)"
    and "RemovePubKey db tag = (Inl ErrDbClosed, db)"
    and "Sync db = Inl ErrDbClosed"
    and "Close db = (Inl ErrDbClosed, db)"
    and "RollbackClose db = (Inl ErrDbClosed, db)"
proof -
  from assms have c: "closed db"
    by (auto simp: Close_def split: if_splits)
  show "ExistsObject db hash = Inl ErrDbClosed" using c by (simp add: ExistsObject_def)
  show "FetchObjectByHash db hash = Inl ErrDbClosed" using c by (simp add: FetchObjectByHash_def)
  show "FetchObjectByCounter db t cnt = (Inl ErrDbClosed, db)"
    using c by (simp add: FetchObjectByCounter_def)
  show "FetchObjectsFromCounter db t cnt count order = (Inl ErrDbClosed, db)"
    using c by (simp add: FetchObjectsFromCounter_def)
  show "GetCounter db t = (Inl ErrDbClosed, db)" using c by (simp add: GetCounter_def)
  show "InsertObject w db data = (Inl ErrDbClosed, db)" using c by (simp add: InsertObject_def)
  show "RemoveObject w db hash order = (Inl ErrDbClosed, db)"
    using c by (simp add: RemoveObject_def)
  show "RemoveObjectByCounter db t cnt = (Inl ErrDbClosed, db)"
    using c by (simp add: RemoveObjectByCounter_def)
  show "RemoveExpiredObjects w db steps = (Inl ErrDbClosed, db)"
    using c by (simp add: RemoveExpiredObjects_def)
  show "RemovePubKey db tag = (Inl ErrDbClosed, db)" using c by (simp add: RemovePubKey_def)
  show "Sync db = Inl ErrDbClosed" using c by (simp add: Sync_def)
  show "Close db = (Inl ErrDbClosed, db)" using c by (simp add: Close_def)
  then show "RollbackClose db = (Inl ErrDbClosed, db)" by (simp add: RollbackClose_def)
qed

text \<open>
  In the earlier engine the stubs answer \<open>ErrNotImplemented\<close> whether the store is open
  or closed, and the operations that are written out look at \<open>closed\<close>, all but one.
\<close>
lemma closed_store_contract_legacy:
  assumes "Close_legacy db0 = (Inr (), db)"
  shows "ExistsObject_legacy db hash = Inl ErrDbClosed"
    and "FetchObjectByHash_legacy db hash = Inl ErrDbClosed"
    and "FetchObjectByCounter_legacy db t cnt = Inl ErrDbClosed"
    and "Sync_legacy db = Inl ErrDbClosed"
    and "Close_legacy db = (Inl ErrDbClosed, db)"
    and "FetchObjectsFromCounter_legacy db t cnt count order = Inl ErrNotImplemented"
proof -
  from assms have c: "closed_legacy db" "msgByCounter db = None" "broadcastByCounter db = None"
    by (auto simp: Close_legacy_def split: if_splits)
  show "ExistsObject_legacy db hash = Inl ErrDbClosed"
    using c by (simp add: ExistsObject_legacy_def)
  show "FetchObjectByHash_legacy db hash = Inl ErrDbClosed"
    using c by (simp add: FetchObjectByHash_legacy_def)
  show "FetchObjectByCounter_legacy db t cnt = Inl ErrDbClosed"
    using c by (simp add: FetchObjectByCounter_legacy_def)
  show "Sync_legacy db = Inl ErrDbClosed" using c by (simp add: Sync_legacy_def)
  show "Close_legacy db = (Inl ErrDbClosed, db)" using c by (simp add: Close_legacy_def)
  show "FetchObjectsFromCounter_legacy db t cnt count order = Inl ErrNotImplemented"
    using c by (simp add: FetchObjectsFromCounter_legacy_def getCounterMap_legacy_def)
qed

text \<open>
  C4: after a successful \<open>Close\<close> every operation is to fail with \<open>ErrDbClosed\<close>.
  \<open>FetchObjectsFromCounter\<close> of the earlier engine does not: on the closed store it
  finds the nil counter map and answers \<open>ErrNotImplemented\<close>.
\<close>
theorem legacy_fetch_after_close:
  "fst (Close_legacy newMemDb_legacy) = Inr () \<and>
   FetchObjectsFromCounter_legacy (snd (Close_legacy newMemDb_legacy)) ObjectTypeMsg 1 10 []
     = Inl ErrNotImplemented \<and>
   FetchObjectByCounter_legacy (snd (Close_legacy newMemDb_legacy)) ObjectTypeMsg 1
     = Inl ErrDbClosed"
  by (simp add: Close_legacy_def newMemDb_legacy_def FetchObjectsFromCounter_legacy_def
      FetchObjectByCounter_legacy_def getCounterMap_legacy_def type_defs)

section \<open>GetCounter and the lazily created bucket\<close>

text \<open>
  C5, as claimed: for a type without a bucket \<open>GetCounter\<close> answers \<open>ErrNotImplemented\<close>
  and creates no bucket. On the new store and the type 4 it answers 0 and leaves a
  bucket behind.
\<close>
theorem getcounter_creates_bucket:
  "\<not> fixedType 4 \<and> bucket newMemDb 4 = None \<and>
   fst (GetCounter newMemDb 4) = Inr 0 \<and>
   fst (GetCounter newMemDb 4) \<noteq> Inl ErrNotImplemented \<and>
   bucket (snd (GetCounter newMemDb 4)) 4 = Some emptyCounter \<and>
   bucket (snd (GetCounter newMemDb 4)) 4 \<noteq> bucket newMemDb 4"
  by (simp add: GetCounter_def getCounterRef_def getCounterMap_def newMemDb_def bucket_def
      fixedType_def type_defs emptyCounter_def)

text \<open>
  C5, amended: on an open store, for a type that is not one of the four fixed ones and
  has no bucket, \<open>GetCounter\<close> returns 0 and adds an empty bucket for the type, changing
  nothing else. It leaves the store as it was when the store is closed, the type is one
  of the four or the type has a bucket, and then (on an open store) returns the position
  of the bucket. It never answers \<open>ErrNotImplemented\<close>.
\<close>
theorem getcounter_lazy_bucket:
  "(\<not> closed db \<and> \<not> fixedType t \<and> bucket db t = None \<longrightarrow>
      GetCounter db t =
        (Inr 0, db\<lparr>unknownObjCounter := (unknownObjCounter db)(t \<mapsto> emptyCounter)\<rparr>)) \<and>
   (closed db \<or> fixedType t \<or> bucket db t \<noteq> None \<longrightarrow> snd (GetCounter db t) = db) \<and>
   (\<not> closed db \<and> bucket db t \<noteq> None \<longrightarrow>
      GetCounter db t = (Inr (counterPosition db t), db)) \<and>
   fst (GetCounter db t) \<noteq> Inl ErrNotImplemented"
  by (auto simp: GetCounter_def getCounterRef_def getCounterMap_def bucket_def fixedType_def
      counterPosition_def emptyCounter_def split: option.splits)

theorem getcounter_lazy_bucket_witness:
  "GetCounter newMemDb 4 =
     (Inr 0, newMemDb\<lparr>unknownObjCounter := (unknownObjCounter newMemDb)(4 \<mapsto> emptyCounter)\<rparr>) \<and>
   snd (GetCounter newMemDb ObjectTypeMsg) = newMemDb \<and>
   GetCounter newMemDb ObjectTypeMsg = (Inr 0, newMemDb)"
proof -
  have a: "\<not> closed newMemDb \<and> \<not> fixedType 4 \<and> bucket newMemDb 4 = None"
    by (simp add: newMemDb_def fixedType_def bucket_def type_defs)
  have b: "\<not> closed newMemDb \<and> bucket newMemDb ObjectTypeMsg \<noteq> None"
    by (simp add: newMemDb_def bucket_def type_defs)
  have p: "counterPosition newMemDb ObjectTypeMsg = 0"
    by (simp add: counterPosition_def newMemDb_def bucket_def type_defs emptyCounter_def)
  from a b p getcounter_lazy_bucket [of newMemDb 4]
    getcounter_lazy_bucket [of newMemDb ObjectTypeMsg]
  show ?thesis by simp
qed

section \<open>The same object inserted twice\<close>

text \<open>
  C1: after every successful writing call every hash of a counter bucket is in the hash
  index, and no hash sits under two counters of one bucket. \<open>InsertObject\<close> does not
  look for the hash before it stores: the same bytes inserted twice get the counters 1
  and 2, and \<open>RemoveObject\<close>, which deletes one entry of the bucket and stops, leaves the
  other behind without its object. \<open>FetchObjectByCounter\<close> then runs into the panic that
  the source reserves for a bug.
\<close>
theorem duplicate_insert_breaks_index:
  "fst (InsertObject testWire newMemDb msgOld) = Inr (testHash msgOld, 1) \<and>
   fst (InsertObject testWire (snd (InsertObject testWire newMemDb msgOld)) msgOld)
     = Inr (testHash msgOld, 2) \<and>
   snd (InsertObject testWire (snd (InsertObject testWire newMemDb msgOld)) msgOld) = sameTwice \<and>
   counterEntry sameTwice ObjectTypeMsg 1 = Some (testHash msgOld) \<and>
   counterEntry sameTwice ObjectTypeMsg 2 = Some (testHash msgOld) \<and>
   fst (RemoveObject testWire sameTwice (testHash msgOld) [1, 2]) = Inr () \<and>
   objectsByHash (snd (RemoveObject testWire sameTwice (testHash msgOld) [1, 2]))
     (testHash msgOld) = None \<and>
   counterEntry (snd (RemoveObject testWire sameTwice (testHash msgOld) [1, 2]))
     ObjectTypeMsg 2 = Some (testHash msgOld) \<and>
   fst (FetchObjectByCounter (snd (RemoveObject testWire sameTwice (testHash msgOld) [1, 2]))
     ObjectTypeMsg 2) = Inl (Panic panicMessage)"
proof -
  have ins: "fst (InsertObject testWire newMemDb msgOld) = Inr (testHash msgOld, 1)"
    "fst (InsertObject testWire (snd (InsertObject testWire newMemDb msgOld)) msgOld)
       = Inr (testHash msgOld, 2)"
    by (simp_all add: run_defs)
  have st: "snd (InsertObject testWire (snd (InsertObject testWire newMemDb msgOld)) msgOld)
      = sameTwice"
    by (simp add: sameTwice_def)
  have ent: "counterEntry sameTwice ObjectTypeMsg 1 = Some (testHash msgOld)"
    "counterEntry sameTwice ObjectTypeMsg 2 = Some (testHash msgOld)"
    by (simp_all add: sameTwice_eq counterEntry_def bucket_def newMemDb_def type_defs)
  have rem: "fst (RemoveObject testWire sameTwice (testHash msgOld) [1, 2]) = Inr ()"
    "objectsByHash (snd (RemoveObject testWire sameTwice (testHash msgOld) [1, 2]))
       (testHash msgOld) = None"
    "counterEntry (snd (RemoveObject testWire sameTwice (testHash msgOld) [1, 2]))
       ObjectTypeMsg 2 = Some (testHash msgOld)"
    "fst (FetchObjectByCounter (snd (RemoveObject testWire sameTwice (testHash msgOld) [1, 2]))
       ObjectTypeMsg 2) = Inl (Panic panicMessage)"
    by (simp_all add: sameTwice_eq remove_defs msgOld_def)
  from ins st ent rem show ?thesis by simp
qed

text \<open>
  C6: the sweep is to remove an expired object that is not a public key from the hash
  index and from its counter bucket. \<open>msgOld\<close> expired at hour 1 and the sweep runs at
  hour 10. In the store that holds it under the counters 1 and 2 the sweep takes it out
  of the hash index and deletes one entry of the bucket; the other entry stays.
\<close>
theorem sweep_leaves_duplicate_entry:
  "fst (RemoveExpiredObjects testWire sameTwice [(testHash msgOld, 10 * Hour, [1, 2])]) = Inr () \<and>
   objectsByHash
     (snd (RemoveExpiredObjects testWire sameTwice [(testHash msgOld, 10 * Hour, [1, 2])]))
     (testHash msgOld) = None \<and>
   counterEntry
     (snd (RemoveExpiredObjects testWire sameTwice [(testHash msgOld, 10 * Hour, [1, 2])]))
     ObjectTypeMsg 2 = Some (testHash msgOld)"
  by (simp add: sameTwice_eq remove_defs msgOld_def Hour_def)

text \<open>
  The expired public key stays and the expired message goes, from the hash index and
  from its bucket (the messages of property P4 of the specification).
\<close>
lemma sweep_keeps_public_key:
  "fst (RemoveExpiredObjects testWire keyAndMsg
     [(testHash keyOld, 10 * Hour, [1]), (testHash msgOld, 10 * Hour, [1])]) = Inr () \<and>
   ExistsObject (snd (RemoveExpiredObjects testWire keyAndMsg
     [(testHash keyOld, 10 * Hour, [1]), (testHash msgOld, 10 * Hour, [1])])) (testHash keyOld)
     = Inr True \<and>
   ExistsObject (snd (RemoveExpiredObjects testWire keyAndMsg
     [(testHash keyOld, 10 * Hour, [1]), (testHash msgOld, 10 * Hour, [1])])) (testHash msgOld)
     = Inr False \<and>
   counterEntry (snd (RemoveExpiredObjects testWire keyAndMsg
     [(testHash keyOld, 10 * Hour, [1]), (testHash msgOld, 10 * Hour, [1])])) ObjectTypeMsg 1
     = None \<and>
   counterEntry (snd (RemoveExpiredObjects testWire keyAndMsg
     [(testHash keyOld, 10 * Hour, [1]), (testHash msgOld, 10 * Hour, [1])])) ObjectTypePubKey 1
     = Some (testHash keyOld)"
proof -
  have st: "keyAndMsg = newMemDb\<lparr>
      objectsByHash := [testHash keyOld \<mapsto> keyOld, testHash msgOld \<mapsto> msgOld],
      pubKeyByTag := [testHash [67] \<mapsto> keyOld],
      msgCounter := Some \<lparr>ByCounter = [1 \<mapsto> testHash msgOld], CounterPos = 1\<rparr>,
      pubKeyCounter := Some \<lparr>ByCounter = [1 \<mapsto> testHash keyOld], CounterPos = 1\<rparr>\<rparr>"
    by (simp add: keyAndMsg_def run_defs)
  have ne: "testHash keyOld \<noteq> testHash msgOld"
    by (simp add: testHash_def keyOld_def msgOld_def)
  show ?thesis
    using ne
    by (simp add: st remove_defs ExistsObject_def msgOld_def keyOld_def Hour_def)
qed

section \<open>Which keys FetchObjectsFromCounter takes\<close>

text \<open>
  C2: \<open>FetchObjectsFromCounter\<close> is to return the \<open>count\<close> smallest keys from the cursor
  on. The loop takes the first \<open>count\<close> keys that the range over the map hands it and
  sorts them afterwards. With the counters 1 and 2 in the bucket, cursor 1 and count 1,
  a range that starts at key 2 yields the second object and the counter 2; the
  specification selects key 1.
\<close>
theorem fetch_takes_arbitrary_keys:
  "FetchObjectsFromCounter twoMsgs ObjectTypeMsg 1 1 [2, 1] = (Inr ([msgNew], 2), twoMsgs) \<and>
   FetchObjectsFromCounter twoMsgs ObjectTypeMsg 1 1 [1, 2] = (Inr ([msgOld], 1), twoMsgs) \<and>
   specKeys [1 \<mapsto> testHash msgOld, 2 \<mapsto> testHash msgNew] 1 1 [2, 1] = [1]"
  using hashes_differ
  by (simp add: twoMsgs_eq fetch_defs specKeys_def liveKeysFrom_def word_cmp)

text \<open>
  The earlier engine reads the last key of the slice without asking whether there is
  one: on its new store, whose counter maps are empty, the call panics.
\<close>
lemma legacy_fetch_empty_panics:
  "FetchObjectsFromCounter_legacy newMemDb_legacy ObjectTypeMsg 1 10 order
     = Inl (Panic ''index out of range'')"
  by (simp add: FetchObjectsFromCounter_legacy_def getCounterMap_legacy_def newMemDb_legacy_def
      mapRange_def type_defs)

section \<open>Batches of one object\<close>

lemma fetch_one_fixed_point:
  "FetchObjectsFromCounter twoMsgs ObjectTypeMsg 1 1 [1, 2] = (Inr ([msgOld], 1), twoMsgs)"
  using hashes_differ
  by (simp add: twoMsgs_eq fetch_defs word_cmp)

text \<open>With batches of one object the resumption never gets past the first object.\<close>
lemma batch_one_never_done:
  "sendOldObjects 1 twoMsgs ObjectTypeMsg 1 (replicate n [1, 2]) = (replicate n [msgOld], Pending)"
  by (induction n) (simp_all add: fetch_one_fixed_point)


section \<open>Buckets through the operations\<close>

lemma fixed_types_distinct:
  "ObjectTypeBroadcast \<noteq> ObjectTypeMsg" "ObjectTypeBroadcast \<noteq> ObjectTypePubKey"
  "ObjectTypeBroadcast \<noteq> ObjectTypeGetPubKey" "ObjectTypeMsg \<noteq> ObjectTypePubKey"
  "ObjectTypeMsg \<noteq> ObjectTypeGetPubKey" "ObjectTypePubKey \<noteq> ObjectTypeGetPubKey"
  by (simp_all add: type_defs)

lemma fst_getCounterMap:
  "fst (getCounterMap db t) =
     (case bucket db t of
        None \<Rightarrow> if fixedType t then None else Some emptyCounter
      | Some c \<Rightarrow> Some c)"
  by (auto simp: getCounterMap_def bucket_def fixedType_def split: option.splits)

lemma bucket_getCounterMap:
  "bucket (snd (getCounterMap db t)) t' =
     (if t' = t \<and> \<not> fixedType t \<and> bucket db t = None then Some emptyCounter
      else bucket db t')"
  by (auto simp: getCounterMap_def bucket_def fixedType_def split: option.splits)

lemma bucket_putCounter:
  "bucket (putCounter db t c) t' = (if t' = t then Some c else bucket db t')"
  using fixed_types_distinct
  by (auto simp: putCounter_def bucket_def)

lemma bucket_objects_update [simp]:
  "bucket (db\<lparr>objectsByHash := x\<rparr>) t = bucket db t"
  "bucket (db\<lparr>pubKeyByTag := y\<rparr>) t = bucket db t"
  by (simp_all add: bucket_def)

lemma CounterPos_deleteFirstMatch [simp]:
  "CounterPos (deleteFirstMatch c hash order) = CounterPos c"
  by (simp add: deleteFirstMatch_def split: option.splits)

lemma position_getCounterMap [simp]:
  "counterPosition (snd (getCounterMap db t)) t' = counterPosition db t'"
  by (simp add: counterPosition_def bucket_getCounterMap emptyCounter_def)

lemma position_dropObject [simp]:
  "counterPosition (dropObject db t hash order) t' = counterPosition db t'"
proof (cases "fst (getCounterMap db t)")
  case None
  then show ?thesis
    by (simp add: dropObject_def case_prod_beta counterPosition_def bucket_getCounterMap
        emptyCounter_def)
next
  case (Some c)
  then have "bucket (snd (getCounterMap db t)) t = Some c"
    by (auto simp: fst_getCounterMap bucket_getCounterMap split: option.splits if_splits)
  with Some show ?thesis
    by (auto simp: dropObject_def case_prod_beta counterPosition_def bucket_putCounter
        bucket_getCounterMap emptyCounter_def split: option.splits if_splits)
qed

lemma position_RemoveObject:
  "counterPosition (snd (RemoveObject w db hash order)) t = counterPosition db t"
  by (simp add: RemoveObject_def split: option.splits sum.splits)

lemma position_RemoveObjectByCounter:
  "counterPosition (snd (RemoveObjectByCounter db t' cnt)) t = counterPosition db t"
proof (cases "fst (getCounterMap db t')")
  case None
  then show ?thesis
    by (simp add: RemoveObjectByCounter_def case_prod_beta)
next
  case (Some c)
  then have "bucket (snd (getCounterMap db t')) t' = Some c"
    by (auto simp: fst_getCounterMap bucket_getCounterMap split: option.splits if_splits)
  with Some show ?thesis
    by (auto simp: RemoveObjectByCounter_def case_prod_beta Let_def counterPosition_def
        bucket_putCounter bucket_getCounterMap emptyCounter_def split: option.splits)
qed

lemma position_sweep:
  "counterPosition (snd (sweep w db steps)) t = counterPosition db t"
proof (induction steps arbitrary: db)
  case Nil
  then show ?case by simp
next
  case (Cons s steps)
  obtain hash now order where s: "s = (hash, now, order)"
    by (cases s) auto
  show ?case
    unfolding s by (simp add: Cons.IH split: option.splits sum.splits)
qed

lemma position_RemoveExpiredObjects:
  "counterPosition (snd (RemoveExpiredObjects w db steps)) t = counterPosition db t"
  by (simp add: RemoveExpiredObjects_def position_sweep)

section \<open>The fixed buckets stay allocated\<close>

lemma allocated_bucket:
  "allocated db \<longleftrightarrow> \<not> closed db \<and> (\<forall>t. fixedType t \<longrightarrow> bucket db t \<noteq> None)"
  using fixed_types_distinct
  by (auto simp: allocated_def fixedType_def bucket_def)

lemma allocated_getCounterMap [simp]:
  "allocated (snd (getCounterMap db t)) = allocated db"
  by (auto simp: allocated_bucket bucket_getCounterMap)

lemma allocated_putCounter:
  "allocated db \<Longrightarrow> allocated (putCounter db t c)"
  by (simp add: allocated_bucket bucket_putCounter)

lemma allocated_objects_update [simp]:
  "allocated (db\<lparr>objectsByHash := x\<rparr>) = allocated db"
  "allocated (db\<lparr>pubKeyByTag := y\<rparr>) = allocated db"
  by (simp_all add: allocated_def)

lemma allocated_dropObject:
  "allocated db \<Longrightarrow> allocated (dropObject db t hash order)"
  by (simp add: dropObject_def Let_def case_prod_beta allocated_putCounter split: option.splits)

lemma allocated_RemoveObject:
  "allocated db \<Longrightarrow> allocated (snd (RemoveObject w db hash order))"
  by (simp add: RemoveObject_def allocated_dropObject split: option.splits sum.splits)

lemma allocated_RemoveObjectByCounter:
  "allocated db \<Longrightarrow> allocated (snd (RemoveObjectByCounter db t cnt))"
  by (simp add: RemoveObjectByCounter_def Let_def case_prod_beta allocated_putCounter
      split: option.splits)

lemma allocated_sweep:
  "allocated db \<Longrightarrow> allocated (snd (sweep w db steps))"
proof (induction steps arbitrary: db)
  case Nil
  then show ?case by simp
next
  case (Cons s steps)
  obtain hash now order where s: "s = (hash, now, order)"
    by (cases s) auto
  from Cons.prems show ?case
    unfolding s by (simp add: Cons.IH allocated_dropObject split: option.splits sum.splits)
qed

lemma allocated_RemoveExpiredObjects:
  "allocated db \<Longrightarrow> allocated (snd (RemoveExpiredObjects w db steps))"
  by (simp add: RemoveExpiredObjects_def allocated_sweep)

lemma allocated_newMemDb: "allocated newMemDb"
  by (simp add: allocated_def newMemDb_def)

section \<open>InsertObject and the position\<close>

lemma InsertObject_failure:
  "fst (InsertObject w db data) = Inl err \<Longrightarrow> snd (InsertObject w db data) = db"
  by (auto simp: InsertObject_def Let_def case_prod_beta
      split: if_splits sum.splits option.splits)

lemma InsertObject_success:
  assumes ok: "fst (InsertObject w db data) = Inr (hash, c)" and al: "allocated db"
  shows "\<exists>hdr. DecodeMsgObjectHeader w data = Inr hdr \<and>
           c = counterPosition db (objType hdr) + 1 \<and>
           (\<forall>t. counterPosition (snd (InsertObject w db data)) t =
              (if t = objType hdr then counterPosition db t + 1 else counterPosition db t)) \<and>
           allocated (snd (InsertObject w db data))"
proof -
  from ok obtain hdr where hdr: "DecodeMsgObjectHeader w data = Inr hdr"
    by (auto simp: InsertObject_def split: if_splits sum.splits)
  from ok hdr have hash: "NewShaHash w (CalcInventoryHash w data) = Inr hash"
    by (auto simp: InsertObject_def Let_def case_prod_beta split: if_splits sum.splits option.splits)
  define db1 where "db1 = (if objType hdr = ObjectTypePubKey
      then (case pubKeyTag w data of Inr tagH \<Rightarrow> db\<lparr>pubKeyByTag := (pubKeyByTag db)(tagH \<mapsto> data)\<rparr>
            | Inl e \<Rightarrow> db)
      else db)"
  define db2 where "db2 = db1\<lparr>objectsByHash := (objectsByHash db1)(hash \<mapsto> data)\<rparr>"
  have b2: "bucket db2 = bucket db"
    by (auto simp: db2_def db1_def fun_eq_iff split: sum.splits)
  have al2: "allocated db2"
    using al by (auto simp: db2_def db1_def split: sum.splits)
  from al2 have some: "fst (getCounterMap db2 (objType hdr)) \<noteq> None"
    by (auto simp: fst_getCounterMap allocated_bucket split: option.splits)
  then obtain cm where cm: "fst (getCounterMap db2 (objType hdr)) = Some cm"
    by auto
  have res: "InsertObject w db data =
      (Inr (hash, CounterPos (counter_Insert cm hash)),
       putCounter (snd (getCounterMap db2 (objType hdr))) (objType hdr) (counter_Insert cm hash))"
    using ok hdr hash cm al
    by (auto simp: InsertObject_def Let_def case_prod_beta db2_def db1_def allocated_def
        split: if_splits sum.splits option.splits)
  have pos: "CounterPos cm = counterPosition db (objType hdr)"
    using cm b2
    by (auto simp: fst_getCounterMap counterPosition_def emptyCounter_def
        split: option.splits if_splits)
  have cpos: "CounterPos (counter_Insert cm hash) = CounterPos cm + 1"
    by (simp add: counter_Insert_def Let_def)
  have "c = counterPosition db (objType hdr) + 1"
    using ok res pos cpos by simp
  moreover have "\<forall>t. counterPosition (snd (InsertObject w db data)) t =
      (if t = objType hdr then counterPosition db t + 1 else counterPosition db t)"
    using res pos cpos b2
    by (simp add: counterPosition_def [of "putCounter _ _ _"] bucket_putCounter
        bucket_getCounterMap)
       (simp add: counterPosition_def emptyCounter_def)
  moreover have "allocated (snd (InsertObject w db data))"
    using res al2 by (simp add: allocated_putCounter)
  ultimately show ?thesis using hdr by blast
qed

section \<open>Counters of successive inserts\<close>

lemma insertedCounters_from:
  "allocated db \<Longrightarrow>
   insertedCounters w t db cs =
     map (\<lambda>i. counterPosition db t + of_nat (Suc i)) [0..<length (insertedCounters w t db cs)]"
proof (induction cs arbitrary: db)
  case Nil
  then show ?case by simp
next
  case (Cons c cs)
  show ?case
  proof (cases c)
    case (CallInsert data)
    show ?thesis
    proof (cases "fst (InsertObject w db data)")
      case (Inl err)
      then have "snd (InsertObject w db data) = db"
        by (rule InsertObject_failure)
      with Inl have "insertedCounters w t db (c # cs) = insertedCounters w t db cs"
        unfolding CallInsert by (simp add: case_prod_beta)
      with Cons.IH [OF Cons.prems] show ?thesis by simp
    next
      case (Inr r)
      obtain hash cnt where r: "r = (hash, cnt)" by (cases r) auto
      define db1 where "db1 = snd (InsertObject w db data)"
      from InsertObject_success [OF Inr [unfolded r] Cons.prems]
      obtain hdr where hdr: "DecodeMsgObjectHeader w data = Inr hdr"
        and cnt: "cnt = counterPosition db (objType hdr) + 1"
        and pos: "\<And>t. counterPosition db1 t =
              (if t = objType hdr then counterPosition db t + 1 else counterPosition db t)"
        and al: "allocated db1"
        unfolding db1_def by blast
      note IH = Cons.IH [OF al]
      show ?thesis
      proof (cases "objType hdr = t")
        case True
        have step: "insertedCounters w t db (c # cs) = cnt # insertedCounters w t db1 cs"
          unfolding CallInsert using Inr r hdr True
          by (simp add: case_prod_beta db1_def)
        have "cnt # insertedCounters w t db1 cs =
            map (\<lambda>i. counterPosition db t + of_nat (Suc i))
              [0..<Suc (length (insertedCounters w t db1 cs))]"
          unfolding map_upt_Suc
          using IH cnt True pos [of t] by (simp add: add.assoc)
        with step show ?thesis by simp
      next
        case False
        have step: "insertedCounters w t db (c # cs) = insertedCounters w t db1 cs"
          unfolding CallInsert using Inr r hdr False
          by (simp add: case_prod_beta db1_def)
        from False have "counterPosition db1 t = counterPosition db t"
          using pos [of t] by auto
        with IH step show ?thesis by simp
      qed
    qed
  next
    case (CallRemove hash order)
    show ?thesis
    proof (cases "isPanic (fst (RemoveObject w db hash order))")
      case True
      then show ?thesis unfolding CallRemove by (simp add: case_prod_beta)
    next
      case False
      from False Cons.IH [OF allocated_RemoveObject [OF Cons.prems, of w hash order]]
      show ?thesis
        unfolding CallRemove by (simp add: case_prod_beta position_RemoveObject)
    qed
  next
    case (CallRemoveByCounter t' k)
    show ?thesis
    proof (cases "isPanic (fst (RemoveObjectByCounter db t' k))")
      case True
      then show ?thesis unfolding CallRemoveByCounter by (simp add: case_prod_beta)
    next
      case False
      from False Cons.IH [OF allocated_RemoveObjectByCounter [OF Cons.prems, of t' k]]
      show ?thesis
        unfolding CallRemoveByCounter
        by (simp add: case_prod_beta position_RemoveObjectByCounter)
    qed
  next
    case (CallRemoveExpired steps)
    show ?thesis
    proof (cases "isPanic (fst (RemoveExpiredObjects w db steps))")
      case True
      then show ?thesis unfolding CallRemoveExpired by (simp add: case_prod_beta)
    next
      case False
      from False Cons.IH [OF allocated_RemoveExpiredObjects [OF Cons.prems, of w steps]]
      show ?thesis
        unfolding CallRemoveExpired
        by (simp add: case_prod_beta position_RemoveExpiredObjects)
    qed
  qed
qed

lemma position_newMemDb: "counterPosition newMemDb t = 0"
  by (simp add: counterPosition_def bucket_def newMemDb_def emptyCounter_def)

lemma upt_from_one: "map (\<lambda>i. f (Suc i)) [0..<n] = map f [1..<Suc n]"
proof -
  have "map f (map Suc [0..<n]) = map f [Suc 0..<Suc n]"
    by (simp only: map_Suc_upt)
  then show ?thesis by (simp add: comp_def)
qed

lemma unat_counters:
  assumes "n < 2 ^ 64"
  shows "map unat (map (of_nat :: nat \<Rightarrow> uint64) [1..<Suc n]) = [1..<Suc n]"
proof -
  have "unat (of_nat i :: uint64) = i" if "i \<in> set [1..<Suc n]" for i
  proof -
    from that assms have "i < 2 ^ 64" by auto
    then show ?thesis by (simp add: unat_of_nat)
  qed
  then have "map (\<lambda>i. unat (of_nat i :: uint64)) [1..<Suc n] = [1..<Suc n]"
    by (rule map_idI)
  then show ?thesis
    by (simp only: map_map comp_def)
qed

text \<open>
  C7: on a new store, whatever removals and other inserts come in between, the
  successful inserts of objects of one type return the counters 1, 2, ..., N in this
  order (as 64-bit values; they are the numbers 1 to N as long as N is below \<open>2^64\<close>).
  A successful insert moves the position of its bucket up by exactly one and returns
  the new position; \<open>RemoveObject\<close>, \<open>RemoveObjectByCounter\<close> and
  \<open>RemoveExpiredObjects\<close> leave every position as it was.
\<close>
theorem counters_gap_free:
  "insertedCounters w t newMemDb cs =
     map of_nat [1..<Suc (length (insertedCounters w t newMemDb cs))] \<and>
   (length (insertedCounters w t newMemDb cs) < 2 ^ 64 \<longrightarrow>
      map unat (insertedCounters w t newMemDb cs) =
        [1..<Suc (length (insertedCounters w t newMemDb cs))]) \<and>
   (allocated db \<and> fst (InsertObject w db data) = Inr (hash, c) \<and>
      DecodeMsgObjectHeader w data = Inr hdr \<longrightarrow>
        c = counterPosition db (objType hdr) + 1 \<and>
        counterPosition (snd (InsertObject w db data)) (objType hdr)
          = counterPosition db (objType hdr) + 1) \<and>
   counterPosition (snd (RemoveObject w db hash' order)) t = counterPosition db t \<and>
   counterPosition (snd (RemoveObjectByCounter db t' cnt)) t = counterPosition db t \<and>
   counterPosition (snd (RemoveExpiredObjects w db steps)) t = counterPosition db t"
proof -
  let ?got = "insertedCounters w t newMemDb cs"
  have "?got = map (\<lambda>i. 0 + of_nat (Suc i)) [0..<length ?got]"
    using insertedCounters_from [OF allocated_newMemDb, of w t cs]
    by (simp only: position_newMemDb)
  then have "?got = map (\<lambda>i. of_nat (Suc i)) [0..<length ?got]"
    by (simp only: add_0_left)
  then have a: "?got = map of_nat [1..<Suc (length ?got)]"
    by (simp only: upt_from_one [of of_nat])
  have b: "length ?got < 2 ^ 64 \<longrightarrow> map unat ?got = [1..<Suc (length ?got)]"
  proof
    assume "length ?got < 2 ^ 64"
    then have "map unat (map (of_nat :: nat \<Rightarrow> uint64) [1..<Suc (length ?got)])
        = [1..<Suc (length ?got)]"
      by (rule unat_counters)
    with arg_cong [OF a, of "map unat"]
    show "map unat ?got = [1..<Suc (length ?got)]"
      by (rule trans)
  qed
  have c: "allocated db \<and> fst (InsertObject w db data) = Inr (hash, c) \<and>
      DecodeMsgObjectHeader w data = Inr hdr \<longrightarrow>
        c = counterPosition db (objType hdr) + 1 \<and>
        counterPosition (snd (InsertObject w db data)) (objType hdr)
          = counterPosition db (objType hdr) + 1"
    using InsertObject_success [of w db data hash c] by auto
  from a b c show ?thesis
    by (simp only: position_RemoveObject position_RemoveObjectByCounter
        position_RemoveExpiredObjects simp_thms)
qed

lemma someCalls_counters:
  "insertedCounters testWire ObjectTypeMsg newMemDb someCalls = [1, 2, 3]"
  by (simp add: someCalls_def run_defs remove_defs RemoveObjectByCounter_def isPanic_def)

theorem counters_gap_free_witness:
  "insertedCounters testWire ObjectTypeMsg newMemDb someCalls = [1, 2, 3] \<and>
   map unat (insertedCounters testWire ObjectTypeMsg newMemDb someCalls) = [1, 2, 3] \<and>
   allocated newMemDb \<and>
   fst (InsertObject testWire newMemDb msgOld) = Inr (testHash msgOld, 1) \<and>
   counterPosition newMemDb ObjectTypeMsg = 0 \<and>
   counterPosition (snd (InsertObject testWire newMemDb msgOld)) ObjectTypeMsg = 1"
proof -
  have len: "length (insertedCounters testWire ObjectTypeMsg newMemDb someCalls) < 2 ^ 64"
    by (simp add: someCalls_counters)
  have ins: "fst (InsertObject testWire newMemDb msgOld) = Inr (testHash msgOld, 1)"
    by (simp add: run_defs)
  have hdr: "DecodeMsgObjectHeader testWire msgOld
      = Inr \<lparr>expiresTime = Hour, objType = ObjectTypeMsg\<rparr>"
    by (simp add: testWire_def msgOld_def type_defs)
  from counters_gap_free [of testWire ObjectTypeMsg someCalls newMemDb msgOld
      "testHash msgOld" 1 "\<lparr>expiresTime = Hour, objType = ObjectTypeMsg\<rparr>"]
    len ins hdr allocated_newMemDb
  show ?thesis
    by (simp add: someCalls_counters position_newMemDb)
qed

section \<open>The keys that FetchObjectsFromCounter selects\<close>

lemma unat_inc: "c < count \<Longrightarrow> unat (c + 1) = Suc (unat c)" for c count :: uint64
  by unat_arith

lemma collectKeys_take:
  "c \<le> count \<Longrightarrow>
   collectKeys cnt count ks keys c =
     keys @ take (unat count - unat c) (filter (\<lambda>k. cnt \<le> k) ks)"
proof (induction ks arbitrary: keys c)
  case Nil
  then show ?case by simp
next
  case (Cons k ks)
  show ?case
  proof (cases "k < cnt")
    case True
    with Cons show ?thesis by (simp add: not_le)
  next
    case False
    then have ge: "cnt \<le> k" by simp
    show ?thesis
    proof (cases "count \<le> c")
      case True
      with Cons.prems have "c = count" by simp
      with False show ?thesis by simp
    next
      case lt: False
      then have less: "c < count" by simp
      then have inc: "c + 1 \<le> count" by (rule inc_le)
      from less have u: "unat (c + 1) = Suc (unat c)" by (rule unat_inc)
      from less have pos: "unat c < unat count" by (simp add: word_less_nat_alt)
      from pos obtain d where d: "unat count - unat c = Suc d"
        by (cases "unat count - unat c") auto
      then have d': "unat count - Suc (unat c) = d" by simp
      show ?thesis
        using False lt ge Cons.IH [OF inc, of "keys @ [k]"]
        by (simp add: u d d')
    qed
  qed
qed


lemma distinct_mapRange: "distinct order \<Longrightarrow> distinct (mapRange m order)"
  by (simp add: mapRange_def)

lemma set_mapRange: "dom m \<subseteq> set order \<Longrightarrow> set (mapRange m order) = dom m"
  by (auto simp: mapRange_def)




text \<open>
  What the first loop and the sort leave: the first \<open>count\<close> keys from the cursor on in
  the order of the visit, sorted. With an ascending visit, and also when no more than
  \<open>count\<close> keys qualify, these are the keys of the specification.
\<close>
lemma selected_keys:
  "sort (collectKeys cnt count (mapRange m order) [] 0) =
     sort (take (unat count) (filter (\<lambda>k. cnt \<le> k) (mapRange m order)))"
  by (simp add: collectKeys_take)


lemma selected_keys_few:
  assumes "length (liveKeysFrom m cnt order) \<le> unat count"
  shows "sort (collectKeys cnt count (mapRange m order) [] 0) = specKeys m cnt count order"
  using assms by (simp add: selected_keys specKeys_def liveKeysFrom_def)

section \<open>One call of FetchObjectsFromCounter\<close>

lemma getCounterMap_bucket: "bucket db t = Some c \<Longrightarrow> getCounterMap db t = (Some c, db)"
  by (auto simp: getCounterMap_def bucket_def split: if_splits)

lemma fetchObjects_map:
  assumes "resolvable db c"
  shows "set vs \<subseteq> dom (ByCounter c) \<Longrightarrow>
    fetchObjects db c vs objects = Inr (objects @ map (objectAt db c) vs)"
proof (induction vs arbitrary: objects)
  case Nil
  then show ?case by simp
next
  case (Cons v vs)
  from Cons.prems obtain hash where h: "ByCounter c v = Some hash" by auto
  with assms obtain obj where o: "objectsByHash db hash = Some obj"
    by (auto simp: resolvable_def)
  from Cons.prems have "set vs \<subseteq> dom (ByCounter c)" by simp
  from Cons.IH [OF this, of "objects @ [obj]"] h o show ?case
    by (simp add: fetchObjectByHash_def objectAt_def)
qed

lemma set_selected_keys:
  "set (sort (collectKeys cnt count (mapRange m order) [] 0)) \<subseteq> dom m"
proof -
  have "set (take (unat count) (filter (\<lambda>k. cnt \<le> k) (mapRange m order)))
      \<subseteq> set (mapRange m order)"
    by (meson filter_is_subset set_take_subset subset_trans)
  also have "\<dots> \<subseteq> dom m"
    by (auto simp: mapRange_def)
  finally show ?thesis
    by (simp add: selected_keys)
qed

text \<open>
  On an open store, for a type with a bucket whose hashes all resolve, the call returns
  the objects of the selected keys and the last of these keys, and leaves the store as
  it was.
\<close>
lemma FetchObjectsFromCounter_keys:
  fixes cnt count :: uint64 and order :: "uint64 list"
  assumes "\<not> closed db" "bucket db t = Some c" "resolvable db c"
  defines "keys \<equiv> sort (collectKeys cnt count (mapRange (ByCounter c) order) [] 0)"
  shows "FetchObjectsFromCounter db t cnt count order =
    (Inr (map (objectAt db c) keys, if keys = [] then 0 else last keys), db)"
proof -
  have sub: "set keys \<subseteq> dom (ByCounter c)"
    unfolding keys_def by (rule set_selected_keys)
  have objs: "fetchObjects db c keys [] = Inr (map (objectAt db c) keys)"
    using fetchObjects_map [OF assms(3) sub, of "[]"] by simp
  have lst: "keys \<noteq> [] \<Longrightarrow> keys ! (length keys - 1) = last keys"
    by (simp add: last_conv_nth)
  show ?thesis
    using assms(1) objs lst
    by (simp add: FetchObjectsFromCounter_def getCounterMap_bucket [OF assms(2)] Let_def
        keys_def [symmetric])
qed


lemma FetchObjectsFromCounter_few:
  fixes cnt count :: uint64 and order :: "uint64 list"
  assumes "\<not> closed db" "bucket db t = Some c" "resolvable db c"
    and "length (liveKeysFrom (ByCounter c) cnt order) \<le> unat count"
  defines "keys \<equiv> specKeys (ByCounter c) cnt count order"
  shows "FetchObjectsFromCounter db t cnt count order =
    (Inr (map (objectAt db c) keys, if keys = [] then 0 else last keys), db)"
  using FetchObjectsFromCounter_keys [OF assms(1-3), of cnt count order]
  by (simp add: selected_keys_few [OF assms(4)] keys_def)

section \<open>Resuming with batches of two and more\<close>







section \<open>Entries of the buckets through the operations\<close>

lemma counterEntry_getCounterMap [simp]:
  "counterEntry (snd (getCounterMap db t)) t' k = counterEntry db t' k"
  by (simp add: counterEntry_def bucket_getCounterMap emptyCounter_def)

lemma counterEntry_putCounter:
  "counterEntry (putCounter db t c) t' k =
     (if t' = t then ByCounter c k else counterEntry db t' k)"
  by (simp add: counterEntry_def bucket_putCounter)

lemma counterEntry_objects_update [simp]:
  "counterEntry (db\<lparr>objectsByHash := x\<rparr>) t k = counterEntry db t k"
  "counterEntry (db\<lparr>pubKeyByTag := y\<rparr>) t k = counterEntry db t k"
  by (simp_all add: counterEntry_def)

lemma fst_getCounterMap_entry:
  "fst (getCounterMap db t) = Some c \<Longrightarrow> ByCounter c k = counterEntry db t k"
  by (auto simp: fst_getCounterMap counterEntry_def emptyCounter_def
      split: option.splits if_splits)

text \<open>
  The scan deletes at most one key, and only one that holds the hash. When the range
  reaches every key and the hash sits under one key at most, no key holds it afterwards.
\<close>
lemma deleteFirstMatch_other:
  "ByCounter c k \<noteq> Some hash \<Longrightarrow> ByCounter (deleteFirstMatch c hash order) k = ByCounter c k"
  by (auto simp: deleteFirstMatch_def find_Some_iff split: option.splits)

lemma deleteFirstMatch_sub:
  "ByCounter (deleteFirstMatch c hash order) k = Some h \<Longrightarrow> ByCounter c k = Some h"
  by (auto simp: deleteFirstMatch_def split: option.splits if_splits)

lemma deleteFirstMatch_gone:
  assumes cov: "\<And>k. ByCounter c k = Some hash \<Longrightarrow> k \<in> set order"
    and uniq: "\<And>k k'. ByCounter c k = Some hash \<Longrightarrow> ByCounter c k' = Some hash \<Longrightarrow> k' = k"
  shows "ByCounter (deleteFirstMatch c hash order) k \<noteq> Some hash"
proof (cases "find (\<lambda>k. ByCounter c k = Some hash) (mapRange (ByCounter c) order)")
  case None
  have "ByCounter c k \<noteq> Some hash"
  proof
    assume h: "ByCounter c k = Some hash"
    then have "k \<in> set (mapRange (ByCounter c) order)"
      using cov [OF h] by (simp add: mapRange_def)
    with None h show False by (auto simp: find_None_iff)
  qed
  with None show ?thesis by (simp add: deleteFirstMatch_def)
next
  case (Some k0)
  then have k0: "ByCounter c k0 = Some hash"
    by (auto simp: find_Some_iff)
  show ?thesis
  proof (cases "k = k0")
    case True
    with Some show ?thesis by (simp add: deleteFirstMatch_def)
  next
    case False
    with uniq [OF k0, of k] have "ByCounter c k \<noteq> Some hash" by auto
    with Some False show ?thesis by (simp add: deleteFirstMatch_def)
  qed
qed

lemma deleteFirstMatch_exact:
  assumes "\<And>k. ByCounter c k = Some hash \<Longrightarrow> k \<in> set order"
    and "\<And>k k'. ByCounter c k = Some hash \<Longrightarrow> ByCounter c k' = Some hash \<Longrightarrow> k' = k"
  shows "ByCounter (deleteFirstMatch c hash order) k =
    (if ByCounter c k = Some hash then None else ByCounter c k)"
proof (cases "ByCounter c k = Some hash")
  case True
  have "ByCounter (deleteFirstMatch c hash order) k \<noteq> Some hash"
    using assms by (rule deleteFirstMatch_gone)
  moreover have "ByCounter (deleteFirstMatch c hash order) k = Some h \<Longrightarrow> h = hash" for h
    using deleteFirstMatch_sub [of c hash order k h] True by simp
  ultimately have "ByCounter (deleteFirstMatch c hash order) k = None"
    by (cases "ByCounter (deleteFirstMatch c hash order) k") auto
  with True show ?thesis by simp
next
  case False
  then show ?thesis by (simp add: deleteFirstMatch_other)
qed

lemma counterEntry_dropObject_sub:
  "counterEntry (dropObject db t hash order) t' k = Some h \<Longrightarrow> counterEntry db t' k = Some h"
proof (cases "fst (getCounterMap db t)")
  case None
  then show "counterEntry (dropObject db t hash order) t' k = Some h \<Longrightarrow> ?thesis"
    by (simp add: dropObject_def case_prod_beta)
next
  case (Some c)
  assume a: "counterEntry (dropObject db t hash order) t' k = Some h"
  show ?thesis
  proof (cases "t' = t")
    case True
    with a Some have "ByCounter (deleteFirstMatch c hash order) k = Some h"
      by (simp add: dropObject_def case_prod_beta counterEntry_putCounter)
    then have "ByCounter c k = Some h" by (rule deleteFirstMatch_sub)
    with Some True show ?thesis by (simp add: fst_getCounterMap_entry)
  next
    case False
    with a Some show ?thesis
      by (simp add: dropObject_def case_prod_beta counterEntry_putCounter)
  qed
qed

lemma counterEntry_dropObject:
  assumes con: "consistent w db"
    and obj: "objectsByHash db hash = Some obj" "DecodeMsgObjectHeader w obj = Inr hdr"
    and cov: "covers db order"
  shows "counterEntry (dropObject db (objType hdr) hash order) t' k =
    (if counterEntry db t' k = Some hash then None else counterEntry db t' k)"
proof -
  let ?t = "objType hdr"
  have typed: "counterEntry db t' k' = Some hash \<Longrightarrow> t' = ?t" for t' k'
    using con obj by (fastforce simp: consistent_def)
  have uniq: "counterEntry db t' k1 = Some hash \<Longrightarrow> counterEntry db t' k2 = Some hash \<Longrightarrow> k2 = k1"
    for t' k1 k2
    using con by (auto simp: consistent_def)
  show ?thesis
  proof (cases "fst (getCounterMap db ?t)")
    case None
    then have "counterEntry db ?t k' = None" for k'
      by (auto simp: fst_getCounterMap counterEntry_def split: option.splits if_splits)
    with typed have "counterEntry db t' k \<noteq> Some hash"
      by (metis option.distinct(1))
    with None show ?thesis
      by (simp add: dropObject_def case_prod_beta)
  next
    case (Some c)
    note ent = fst_getCounterMap_entry [OF Some]
    have ex: "ByCounter (deleteFirstMatch c hash order) k' =
        (if ByCounter c k' = Some hash then None else ByCounter c k')" for k'
    proof (rule deleteFirstMatch_exact)
      fix k1 assume "ByCounter c k1 = Some hash"
      then show "k1 \<in> set order" using cov by (auto simp: ent covers_def)
    next
      fix k1 k2 assume "ByCounter c k1 = Some hash" "ByCounter c k2 = Some hash"
      then show "k2 = k1" using uniq [of ?t k1 k2] by (simp add: ent)
    qed
    show ?thesis
    proof (cases "t' = ?t")
      case True
      with Some show ?thesis
        by (simp add: dropObject_def case_prod_beta counterEntry_putCounter ex ent)
    next
      case False
      with typed have "counterEntry db t' k \<noteq> Some hash" by blast
      with Some False show ?thesis
        by (simp add: dropObject_def case_prod_beta counterEntry_putCounter)
    qed
  qed
qed

lemma covers_dropObject: "covers db order' \<Longrightarrow> covers (dropObject db t hash order) order'"
  unfolding covers_def by (blast dest: counterEntry_dropObject_sub)

lemma consistent_dropObject:
  assumes con: "consistent w db"
    and obj: "objectsByHash db hash = Some obj" "DecodeMsgObjectHeader w obj = Inr hdr"
    and cov: "covers db order"
  shows "consistent w (dropObject db (objType hdr) hash order)"
  unfolding consistent_def
proof (intro conjI allI impI)
  fix h o' assume "objectsByHash (dropObject db (objType hdr) hash order) h = Some o'"
  then have "objectsByHash db h = Some o'"
    by (simp split: if_splits)
  with con show "\<exists>hdr. DecodeMsgObjectHeader w o' = Inr hdr"
    by (auto simp: consistent_def)
next
  fix t k h assume "counterEntry (dropObject db (objType hdr) hash order) t k = Some h"
  then have e: "counterEntry db t k = Some h" "h \<noteq> hash"
    by (auto simp: counterEntry_dropObject [OF assms] split: if_splits)
  with con obtain o' hdr' where "objectsByHash db h = Some o'"
    "DecodeMsgObjectHeader w o' = Inr hdr'" "objType hdr' = t"
    by (fastforce simp: consistent_def)
  with e show "\<exists>obj hdr'. objectsByHash (dropObject db (objType hdr) hash order) h = Some obj \<and>
      DecodeMsgObjectHeader w obj = Inr hdr' \<and> objType hdr' = t"
    by simp
next
  fix t k h k'
  assume "counterEntry (dropObject db (objType hdr) hash order) t k = Some h"
    and "counterEntry (dropObject db (objType hdr) hash order) t k' = Some h"
  then have "counterEntry db t k = Some h" "counterEntry db t k' = Some h"
    by (auto dest: counterEntry_dropObject_sub)
  with con show "k' = k"
    by (auto simp: consistent_def)
qed

section \<open>The operations keep the indices in agreement\<close>

lemma consistent_newMemDb: "consistent w newMemDb"
  by (simp add: consistent_def newMemDb_def counterEntry_def bucket_def emptyCounter_def)

lemma consistent_decodes:
  "consistent w db \<Longrightarrow> objectsByHash db hash = Some obj \<Longrightarrow>
   \<exists>hdr. DecodeMsgObjectHeader w obj = Inr hdr"
  by (auto simp: consistent_def)

lemma consistent_RemoveObject:
  assumes "consistent w db" "covers db order"
  shows "consistent w (snd (RemoveObject w db hash order))"
    and "\<not> isPanic (fst (RemoveObject w db hash order))"
proof -
  show "consistent w (snd (RemoveObject w db hash order))"
  proof (cases "objectsByHash db hash")
    case None
    with assms(1) show ?thesis by (simp add: RemoveObject_def)
  next
    case (Some obj)
    with consistent_decodes [OF assms(1) Some] obtain hdr
      where hdr: "DecodeMsgObjectHeader w obj = Inr hdr" by blast
    from consistent_dropObject [OF assms(1) Some hdr assms(2)] Some hdr assms(1)
    show ?thesis by (simp add: RemoveObject_def)
  qed
  show "\<not> isPanic (fst (RemoveObject w db hash order))"
  proof (cases "objectsByHash db hash")
    case None
    then show ?thesis by (simp add: RemoveObject_def isPanic_def)
  next
    case (Some obj)
    with consistent_decodes [OF assms(1) Some] obtain hdr
      where hdr: "DecodeMsgObjectHeader w obj = Inr hdr" by blast
    with Some show ?thesis by (simp add: RemoveObject_def isPanic_def)
  qed
qed

lemma consistent_RemoveObjectByCounter:
  assumes con: "consistent w db"
  shows "consistent w (snd (RemoveObjectByCounter db t k))"
proof (cases "closed db")
  case True
  with con show ?thesis by (simp add: RemoveObjectByCounter_def)
next
  case op: False
  show ?thesis
  proof (cases "fst (getCounterMap db t)")
    case None
    with con op have "snd (RemoveObjectByCounter db t k) = snd (getCounterMap db t)"
      by (simp add: RemoveObjectByCounter_def case_prod_beta)
    moreover have "consistent w (snd (getCounterMap db t))"
      using con by (simp add: consistent_def)
    ultimately show ?thesis by simp
  next
    case (Some c)
    note ent = fst_getCounterMap_entry [OF Some]
    show ?thesis
    proof (cases "ByCounter c k")
      case None
      with Some op have "snd (RemoveObjectByCounter db t k) = snd (getCounterMap db t)"
        by (simp add: RemoveObjectByCounter_def case_prod_beta)
      moreover have "consistent w (snd (getCounterMap db t))"
        using con by (simp add: consistent_def)
      ultimately show ?thesis by simp
    next
      case (Some hash)
      define db' where "db' = snd (RemoveObjectByCounter db t k)"
      have objs: "objectsByHash db' = (objectsByHash db)(hash := None)"
        using \<open>fst (getCounterMap db t) = Some c\<close> Some op
        by (simp add: db'_def RemoveObjectByCounter_def case_prod_beta Let_def)
      have ents: "counterEntry db' t' k' =
          (if t' = t \<and> k' = k then None else counterEntry db t' k')" for t' k'
        using \<open>fst (getCounterMap db t) = Some c\<close> Some op
        by (simp add: db'_def RemoveObjectByCounter_def case_prod_beta Let_def
            counterEntry_putCounter ent)
      have here: "counterEntry db t k = Some hash"
        using Some by (simp add: ent)
      have only: "t' = t \<and> k' = k" if that: "counterEntry db t' k' = Some hash" for t' k'
      proof -
        from con here obtain obj hdr where "objectsByHash db hash = Some obj"
          "DecodeMsgObjectHeader w obj = Inr hdr" "objType hdr = t"
          unfolding consistent_def by blast
        moreover from con that obtain obj' hdr' where "objectsByHash db hash = Some obj'"
          "DecodeMsgObjectHeader w obj' = Inr hdr'" "objType hdr' = t'"
          unfolding consistent_def by blast
        ultimately have "t' = t" by simp
        moreover from con here that [unfolded \<open>t' = t\<close>] have "k' = k"
          unfolding consistent_def by blast
        ultimately show ?thesis by simp
      qed
      show ?thesis
        unfolding db'_def [symmetric] consistent_def
      proof (intro conjI allI impI)
        fix h obj assume "objectsByHash db' h = Some obj"
        then have "objectsByHash db h = Some obj" by (simp add: objs split: if_splits)
        with con show "\<exists>hdr. DecodeMsgObjectHeader w obj = Inr hdr"
          by (rule consistent_decodes)
      next
        fix t' k' h assume "counterEntry db' t' k' = Some h"
        then have e: "counterEntry db t' k' = Some h" "\<not> (t' = t \<and> k' = k)"
          by (auto simp: ents split: if_splits)
        with only have "h \<noteq> hash" by blast
        moreover from con e(1) obtain obj hdr where "objectsByHash db h = Some obj"
          "DecodeMsgObjectHeader w obj = Inr hdr" "objType hdr = t'"
          by (fastforce simp: consistent_def)
        ultimately show "\<exists>obj hdr. objectsByHash db' h = Some obj \<and>
            DecodeMsgObjectHeader w obj = Inr hdr \<and> objType hdr = t'"
          by (simp add: objs)
      next
        fix t' k1 h k2
        assume "counterEntry db' t' k1 = Some h" "counterEntry db' t' k2 = Some h"
        then have "counterEntry db t' k1 = Some h" "counterEntry db t' k2 = Some h"
          by (auto simp: ents split: if_splits)
        with con show "k2 = k1" by (auto simp: consistent_def)
      qed
    qed
  qed
qed

text \<open>
  What a successful insert leaves: the object under its hash, and in the buckets the
  entries that were there or the one new entry.
\<close>
lemma InsertObject_state:
  assumes ok: "fst (InsertObject w db data) = Inr (hash, c)"
  shows "\<exists>hdr. DecodeMsgObjectHeader w data = Inr hdr \<and>
    objectsByHash (snd (InsertObject w db data)) = (objectsByHash db)(hash \<mapsto> data) \<and>
    (\<forall>t k h. counterEntry (snd (InsertObject w db data)) t k = Some h \<longrightarrow>
       counterEntry db t k = Some h \<or> (h = hash \<and> t = objType hdr \<and> k = c))"
proof -
  from ok obtain hdr where hdr: "DecodeMsgObjectHeader w data = Inr hdr"
    by (auto simp: InsertObject_def split: if_splits sum.splits)
  from ok hdr have hash: "NewShaHash w (CalcInventoryHash w data) = Inr hash"
    by (auto simp: InsertObject_def Let_def case_prod_beta split: if_splits sum.splits option.splits)
  define db1 where "db1 = (if objType hdr = ObjectTypePubKey
      then (case pubKeyTag w data of Inr tagH \<Rightarrow> db\<lparr>pubKeyByTag := (pubKeyByTag db)(tagH \<mapsto> data)\<rparr>
            | Inl e \<Rightarrow> db)
      else db)"
  define db2 where "db2 = db1\<lparr>objectsByHash := (objectsByHash db1)(hash \<mapsto> data)\<rparr>"
  have o2: "objectsByHash db2 = (objectsByHash db)(hash \<mapsto> data)"
    by (auto simp: db2_def db1_def split: sum.splits)
  have e2: "counterEntry db2 t k = counterEntry db t k" for t k
    by (auto simp: db2_def db1_def split: sum.splits)
  show ?thesis
  proof (cases "fst (getCounterMap db2 (objType hdr))")
    case None
    then have "snd (InsertObject w db data) = snd (getCounterMap db2 (objType hdr))"
      using ok hdr hash
      by (auto simp: InsertObject_def Let_def case_prod_beta db2_def db1_def
          split: if_splits sum.splits option.splits)
    with hdr o2 e2 show ?thesis by simp
  next
    case (Some cm)
    then have res: "InsertObject w db data =
        (Inr (hash, CounterPos (counter_Insert cm hash)),
         putCounter (snd (getCounterMap db2 (objType hdr))) (objType hdr) (counter_Insert cm hash))"
      using ok hdr hash
      by (auto simp: InsertObject_def Let_def case_prod_beta db2_def db1_def
          split: if_splits sum.splits option.splits)
    with ok have c: "c = CounterPos cm + 1"
      by (simp add: counter_Insert_def Let_def)
    have "ByCounter (counter_Insert cm hash) k =
        (if k = c then Some hash else counterEntry db (objType hdr) k)" for k
      using fst_getCounterMap_entry [OF Some, of k] c
      by (simp add: counter_Insert_def Let_def e2)
    with res hdr o2 e2 show ?thesis
      by (auto simp: counterEntry_putCounter split: if_splits)
  qed
qed

lemma consistent_InsertObject:
  assumes con: "consistent w db"
    and ok: "fst (InsertObject w db data) = Inr (hash, c)"
    and fresh: "objectsByHash db hash = None"
  shows "consistent w (snd (InsertObject w db data))"
proof -
  define db' where "db' = snd (InsertObject w db data)"
  from InsertObject_state [OF ok] obtain hdr where
    hdr: "DecodeMsgObjectHeader w data = Inr hdr"
    and objs: "objectsByHash db' = (objectsByHash db)(hash \<mapsto> data)"
    and ents: "\<And>t k h. counterEntry db' t k = Some h \<Longrightarrow>
       counterEntry db t k = Some h \<or> (h = hash \<and> t = objType hdr \<and> k = c)"
    unfolding db'_def by blast
  have old: "counterEntry db t k \<noteq> Some hash" for t k
    using con fresh by (fastforce simp: consistent_def)
  show ?thesis
    unfolding db'_def [symmetric] consistent_def
  proof (intro conjI allI impI)
    fix h obj assume "objectsByHash db' h = Some obj"
    with hdr con show "\<exists>hdr. DecodeMsgObjectHeader w obj = Inr hdr"
      by (auto simp: objs consistent_def split: if_splits)
  next
    fix t k h assume e: "counterEntry db' t k = Some h"
    show "\<exists>obj hdr'. objectsByHash db' h = Some obj \<and>
        DecodeMsgObjectHeader w obj = Inr hdr' \<and> objType hdr' = t"
    proof (cases "h = hash")
      case True
      with ents [OF e] old have "t = objType hdr" by blast
      with True hdr show ?thesis by (simp add: objs)
    next
      case False
      with ents [OF e] have "counterEntry db t k = Some h" by blast
      with con obtain obj hdr' where "objectsByHash db h = Some obj"
        "DecodeMsgObjectHeader w obj = Inr hdr'" "objType hdr' = t"
        by (fastforce simp: consistent_def)
      with False show ?thesis by (simp add: objs)
    qed
  next
    fix t k1 h k2
    assume e1: "counterEntry db' t k1 = Some h" and e2: "counterEntry db' t k2 = Some h"
    show "k2 = k1"
    proof (cases "h = hash")
      case True
      with ents [OF e1] ents [OF e2] old show ?thesis by blast
    next
      case False
      with ents [OF e1] ents [OF e2] have "counterEntry db t k1 = Some h"
        "counterEntry db t k2 = Some h" by blast+
      with con show ?thesis by (auto simp: consistent_def)
    qed
  qed
qed

text \<open>Consistency is the claim about the two indices.\<close>
lemma consistent_indices:
  assumes "consistent w db"
  shows "counterEntry db t k = Some hash \<Longrightarrow> objectsByHash db hash \<noteq> None"
    and "counterEntry db t k = Some hash \<Longrightarrow> counterEntry db t k' = Some hash \<Longrightarrow> k' = k"
  using assms by (fastforce simp: consistent_def)+

section \<open>The sweep on a consistent store\<close>

text \<open>
  On a consistent store, with a visit that names no hash twice and scans that reach
  every key: the sweep does not panic and keeps the store consistent; it takes out of
  the hash index exactly the visited objects that \<open>expiredAt\<close> holds for at their
  reading of the clock, and out of the buckets exactly the entries of these objects.
\<close>
lemma sweep_exact:
  assumes "consistent w db" and "distinct (map fst steps)"
    and "\<forall>s \<in> set steps. covers db (snd (snd s))"
  shows "fst (sweep w db steps) = Inr () \<and> consistent w (snd (sweep w db steps)) \<and>
    (\<forall>hash. objectsByHash (snd (sweep w db steps)) hash =
       (case objectsByHash db hash of
          None \<Rightarrow> None
        | Some obj \<Rightarrow>
            if \<exists>now order. (hash, now, order) \<in> set steps \<and> expiredAt w now obj
            then None else Some obj)) \<and>
    (\<forall>t k. counterEntry (snd (sweep w db steps)) t k =
       (case counterEntry db t k of
          None \<Rightarrow> None
        | Some hash \<Rightarrow>
            if objectsByHash (snd (sweep w db steps)) hash = None then None else Some hash))"
  using assms
proof (induction steps arbitrary: db)
  case Nil
  show ?case
  proof (intro conjI allI)
    show "fst (sweep w db []) = Inr ()" by simp
    show "consistent w (snd (sweep w db []))" using Nil.prems(1) by simp
  next
    fix hash
    show "objectsByHash (snd (sweep w db [])) hash =
        (case objectsByHash db hash of
           None \<Rightarrow> None
         | Some obj \<Rightarrow>
             if \<exists>now order. (hash, now, order) \<in> set [] \<and> expiredAt w now obj
             then None else Some obj)"
      by (simp split: option.splits)
  next
    fix t k
    show "counterEntry (snd (sweep w db [])) t k =
        (case counterEntry db t k of
           None \<Rightarrow> None
         | Some hash \<Rightarrow>
             if objectsByHash (snd (sweep w db [])) hash = None then None else Some hash)"
    proof (cases "counterEntry db t k")
      case None
      then show ?thesis by simp
    next
      case (Some hash)
      with consistent_indices(1) [OF Nil.prems(1) Some] show ?thesis by simp
    qed
  qed
next
  case (Cons s steps)
  obtain hash now order where s: "s = (hash, now, order)"
    by (cases s) auto
  from Cons.prems(2) have dist: "distinct (map fst steps)"
    and notin: "\<And>now' order'. (hash, now', order') \<notin> set steps"
    by (auto simp: s image_iff)
  from Cons.prems(3) have cov: "covers db order"
    and covs: "\<forall>s \<in> set steps. covers db (snd (snd s))"
    by (simp_all add: s)
  have other: "(\<exists>now' order'. (h, now', order') \<in> set (s # steps) \<and> expiredAt w now' o')
      = (\<exists>now' order'. (h, now', order') \<in> set steps \<and> expiredAt w now' o')"
    if "h \<noteq> hash" for h o'
    using that by (auto simp: s)
  have here: "(\<exists>now' order'. (hash, now', order') \<in> set (s # steps) \<and> expiredAt w now' o')
      = expiredAt w now o'" for o'
    using notin by (auto simp: s)
  have none: "\<not> (\<exists>now' order'. (hash, now', order') \<in> set steps \<and> expiredAt w now' o')" for o'
    using notin by blast
  show ?case
  proof (cases "\<exists>obj. objectsByHash db hash = Some obj \<and> expiredAt w now obj")
    case False
    have run: "sweep w db (s # steps) = sweep w db steps"
    proof (cases "objectsByHash db hash")
      case None
      then show ?thesis by (simp add: s)
    next
      case (Some obj)
      from consistent_decodes [OF Cons.prems(1) Some] obtain hdr
        where hdr: "DecodeMsgObjectHeader w obj = Inr hdr" by blast
      from False Some have "\<not> expiredAt w now obj" by simp
      with Some hdr show ?thesis by (auto simp: s expiredAt_def)
    qed
    let ?end = "snd (sweep w db steps)"
    from Cons.IH [OF Cons.prems(1) dist covs]
    have ih: "fst (sweep w db steps) = Inr ()" "consistent w ?end"
      and ih_objs: "\<And>h. objectsByHash ?end h =
        (case objectsByHash db h of
           None \<Rightarrow> None
         | Some o' \<Rightarrow>
             if \<exists>now' order'. (h, now', order') \<in> set steps \<and> expiredAt w now' o'
             then None else Some o')"
      and ih_ents: "\<And>t k. counterEntry ?end t k =
        (case counterEntry db t k of
           None \<Rightarrow> None
         | Some h \<Rightarrow> if objectsByHash ?end h = None then None else Some h)"
      by blast+
    have objs: "objectsByHash ?end h =
        (case objectsByHash db h of
           None \<Rightarrow> None
         | Some o' \<Rightarrow>
             if \<exists>now' order'. (h, now', order') \<in> set (s # steps) \<and> expiredAt w now' o'
             then None else Some o')" for h
    proof (cases "h = hash")
      case True
      show ?thesis
      proof (cases "objectsByHash db hash")
        case None
        with True ih_objs [of hash] show ?thesis by simp
      next
        case (Some obj)
        with False have "\<not> expiredAt w now obj" by simp
        with True Some ih_objs [of hash] show ?thesis
          by (simp only: here none option.case if_False)
      qed
    next
      case False
      show ?thesis
        by (simp only: ih_objs [of h] other [OF False])
    qed
    from ih objs ih_ents show ?thesis
      unfolding run by blast
  next
    case True
    then obtain obj where Some: "objectsByHash db hash = Some obj"
      and ex: "expiredAt w now obj" by blast
    from consistent_decodes [OF Cons.prems(1) Some] obtain hdr
      where hdr: "DecodeMsgObjectHeader w obj = Inr hdr" by blast
    define db1 where "db1 = dropObject db (objType hdr) hash order"
    from ex have run: "sweep w db (s # steps) = sweep w db1 steps"
      using Some hdr by (auto simp: s expiredAt_def db1_def)
    have con1: "consistent w db1"
      unfolding db1_def using Cons.prems(1) Some hdr cov by (rule consistent_dropObject)
    have covs1: "\<forall>s \<in> set steps. covers db1 (snd (snd s))"
      unfolding db1_def using covs by (auto intro: covers_dropObject)
    have o1: "objectsByHash db1 h = (if h = hash then None else objectsByHash db h)" for h
      by (simp add: db1_def)
    have e1: "counterEntry db1 t k =
        (if counterEntry db t k = Some hash then None else counterEntry db t k)" for t k
      unfolding db1_def using Cons.prems(1) Some hdr cov by (rule counterEntry_dropObject)
    let ?end = "snd (sweep w db1 steps)"
    from Cons.IH [OF con1 dist covs1]
    have ih: "fst (sweep w db1 steps) = Inr ()" "consistent w ?end"
      and ih_objs: "\<And>h. objectsByHash ?end h =
        (case objectsByHash db1 h of
           None \<Rightarrow> None
         | Some o' \<Rightarrow>
             if \<exists>now' order'. (h, now', order') \<in> set steps \<and> expiredAt w now' o'
             then None else Some o')"
      and ih_ents: "\<And>t k. counterEntry ?end t k =
        (case counterEntry db1 t k of
           None \<Rightarrow> None
         | Some h \<Rightarrow> if objectsByHash ?end h = None then None else Some h)"
      by blast+
    have gone: "objectsByHash ?end hash = None"
      using ih_objs [of hash] by (simp add: o1)
    have objs: "objectsByHash ?end h =
        (case objectsByHash db h of
           None \<Rightarrow> None
         | Some o' \<Rightarrow>
             if \<exists>now' order'. (h, now', order') \<in> set (s # steps) \<and> expiredAt w now' o'
             then None else Some o')" for h
    proof (cases "h = hash")
      case True
      with gone Some ex show ?thesis
        by (simp only: here option.case if_True)
    next
      case False
      then show ?thesis
        by (simp only: ih_objs [of h] o1 [of h] other [OF False] if_False)
    qed
    have ents: "counterEntry ?end t k =
        (case counterEntry db t k of
           None \<Rightarrow> None
         | Some h \<Rightarrow> if objectsByHash ?end h = None then None else Some h)" for t k
    proof (cases "counterEntry db t k = Some hash")
      case True
      with gone show ?thesis
        by (simp add: ih_ents [of t k] e1 [of t k])
    next
      case False
      then show ?thesis
        by (simp only: ih_ents [of t k] e1 [of t k] if_False)
    qed
    from ih objs ents show ?thesis
      unfolding run by blast
  qed
qed

lemma RemoveExpiredObjects_exact:
  assumes "\<not> closed db" and "consistent w db" and "distinct (map fst steps)"
    and "\<forall>s \<in> set steps. covers db (snd (snd s))"
  shows "fst (RemoveExpiredObjects w db steps) = Inr () \<and>
    consistent w (snd (RemoveExpiredObjects w db steps)) \<and>
    (\<forall>hash. objectsByHash (snd (RemoveExpiredObjects w db steps)) hash =
       (case objectsByHash db hash of
          None \<Rightarrow> None
        | Some obj \<Rightarrow>
            if \<exists>now order. (hash, now, order) \<in> set steps \<and> expiredAt w now obj
            then None else Some obj)) \<and>
    (\<forall>t k. counterEntry (snd (RemoveExpiredObjects w db steps)) t k =
       (case counterEntry db t k of
          None \<Rightarrow> None
        | Some hash \<Rightarrow>
            if objectsByHash (snd (RemoveExpiredObjects w db steps)) hash = None
            then None else Some hash))"
proof -
  from assms(1) have eq: "RemoveExpiredObjects w db steps = sweep w db steps"
    by (simp add: RemoveExpiredObjects_def)
  show ?thesis
    unfolding eq using assms(2-4) by (rule sweep_exact)
qed


end
